theory Spec2Isabelle
  imports Main "HOL-Library.Word"
begin

section \<open>A shallow embedding of the gobreaker circuit breaker\<close>

text \<open>
  The source is \<^verbatim>\<open>src/gobreaker.go\<close>. Every method of \<^verbatim>\<open>CircuitBreaker\<close> runs
  under the breaker's mutex, so each is one atomic step on the breaker's fields: a
  function from the breaker (and the reading of \<^verbatim>\<open>time.Now()\<close> it takes) to the
  updated breaker and the method's results.

  \<^item> \<^verbatim>\<open>uint32\<close> and \<^verbatim>\<open>uint64\<close> are \<open>32 word\<close> and \<open>64 word\<close>: \<open>+\<close> wraps, \<open>\<le>\<close> is
    the unsigned order.
  \<^item> \<^verbatim>\<open>time.Time\<close> is an \<open>int\<close>, the nanoseconds since the zero \<^verbatim>\<open>Time\<close>;
    \<^verbatim>\<open>t.IsZero()\<close> is \<open>t = 0\<close>, \<^verbatim>\<open>a.Before(b)\<close> is \<open>a < b\<close>, \<^verbatim>\<open>t.Add(d)\<close> is \<open>t + d\<close>.
    \<^verbatim>\<open>time.Duration\<close> is an \<open>int\<close> of nanoseconds. The range limits of both are not
    modelled.
  \<^item> An \<^verbatim>\<open>error\<close> is \<open>'e error option\<close>, \<open>None\<close> for \<^verbatim>\<open>nil\<close>; an
    \<^verbatim>\<open>interface{}\<close> result is \<open>'r option\<close>, \<open>None\<close> for \<^verbatim>\<open>nil\<close>.
  \<^item> The caller's \<^verbatim>\<open>ReadyToTrip\<close> and \<^verbatim>\<open>IsSuccessful\<close> are total functions without
    effects. \<^verbatim>\<open>OnStateChange\<close> is a procedure called for its effect: the model keeps
    whether one is set and records every call it receives, in order.
\<close>

type_synonym time = int
type_synonym duration = int
type_synonym uint32 = "32 word"
type_synonym uint64 = "64 word"

definition zero :: time where
  "zero = 0"

definition IsZero :: "time \<Rightarrow> bool" where
  "IsZero t = (t = zero)"

definition Before :: "time \<Rightarrow> time \<Rightarrow> bool" where
  "Before t u = (t < u)"

definition Add :: "time \<Rightarrow> duration \<Rightarrow> time" where
  "Add t d = t + d"

definition Second :: duration where
  "Second = 1000000000"

subsection \<open>State, errors and counts\<close>

datatype State = StateClosed | StateHalfOpen | StateOpen

text \<open>The two errors of the package, and any other error value (of the guarded request).\<close>

datatype 'e error = ErrTooManyRequests | ErrOpenState | OtherError 'e

record Counts =
  Requests :: uint32
  TotalSuccesses :: uint32
  TotalFailures :: uint32
  ConsecutiveSuccesses :: uint32
  ConsecutiveFailures :: uint32

definition Counts_onRequest :: "Counts \<Rightarrow> Counts" where
  "Counts_onRequest c = c\<lparr>Requests := Requests c + 1\<rparr>"

definition Counts_onSuccess :: "Counts \<Rightarrow> Counts" where
  "Counts_onSuccess c =
     c\<lparr>TotalSuccesses := TotalSuccesses c + 1,
       ConsecutiveSuccesses := ConsecutiveSuccesses c + 1,
       ConsecutiveFailures := 0\<rparr>"

definition Counts_onFailure :: "Counts \<Rightarrow> Counts" where
  "Counts_onFailure c =
     c\<lparr>TotalFailures := TotalFailures c + 1,
       ConsecutiveFailures := ConsecutiveFailures c + 1,
       ConsecutiveSuccesses := 0\<rparr>"

definition Counts_clear :: "Counts \<Rightarrow> Counts" where
  "Counts_clear c =
     c\<lparr>Requests := 0, TotalSuccesses := 0, TotalFailures := 0,
       ConsecutiveSuccesses := 0, ConsecutiveFailures := 0\<rparr>"

text \<open>The zero value of \<^verbatim>\<open>Counts\<close>.\<close>

definition zeroCounts :: Counts where
  "zeroCounts =
     \<lparr>Requests = 0, TotalSuccesses = 0, TotalFailures = 0,
      ConsecutiveSuccesses = 0, ConsecutiveFailures = 0\<rparr>"

subsection \<open>Settings and the breaker\<close>

text \<open>
  A \<^verbatim>\<open>nil\<close> function field of \<^verbatim>\<open>Settings\<close> is \<open>None\<close>. \<open>OnStateChange\<close> holds
  whether a callback is given.
\<close>

record 'e Settings =
  Name :: string
  MaxRequests :: uint32
  Interval :: duration
  Timeout :: duration
  ReadyToTrip :: "(Counts \<Rightarrow> bool) option"
  OnStateChange :: bool
  IsSuccessful :: "('e error option \<Rightarrow> bool) option"

text \<open>
  The fields of \<^verbatim>\<open>CircuitBreaker\<close> (the mutex apart), and \<open>notified\<close>: the calls
  \<^verbatim>\<open>onStateChange\<close> has received, as (name, from, to), oldest first.
\<close>

record 'e CircuitBreaker =
  name :: string
  maxRequests :: uint32
  interval :: duration
  timeout :: duration
  readyToTrip :: "Counts \<Rightarrow> bool"
  isSuccessful :: "'e error option \<Rightarrow> bool"
  onStateChange :: bool
  state :: State
  generation :: uint64
  counts :: Counts
  expiry :: time
  notified :: "(string \<times> State \<times> State) list"

definition defaultInterval :: duration where
  "defaultInterval = 0 * Second"

definition defaultTimeout :: duration where
  "defaultTimeout = 60 * Second"

definition defaultReadyToTrip :: "Counts \<Rightarrow> bool" where
  "defaultReadyToTrip c = (ConsecutiveFailures c > 5)"

definition defaultIsSuccessful :: "'e error option \<Rightarrow> bool" where
  "defaultIsSuccessful err = (err = None)"

subsection \<open>The state machine\<close>

definition toNewGeneration :: "'e CircuitBreaker \<Rightarrow> time \<Rightarrow> 'e CircuitBreaker" where
  "toNewGeneration cb now =
     (let cb = cb\<lparr>generation := generation cb + 1\<rparr>;
          cb = cb\<lparr>counts := Counts_clear (counts cb)\<rparr>
      in case state cb of
           StateClosed \<Rightarrow>
             if interval cb = 0 then cb\<lparr>expiry := zero\<rparr>
             else cb\<lparr>expiry := Add now (interval cb)\<rparr>
         | StateOpen \<Rightarrow> cb\<lparr>expiry := Add now (timeout cb)\<rparr>
         | StateHalfOpen \<Rightarrow> cb\<lparr>expiry := zero\<rparr>)"

definition setState :: "'e CircuitBreaker \<Rightarrow> State \<Rightarrow> time \<Rightarrow> 'e CircuitBreaker" where
  "setState cb st now =
     (if state cb = st then cb
      else
        let prev = state cb;
            cb = cb\<lparr>state := st\<rparr>;
            cb = toNewGeneration cb now
        in if onStateChange cb then cb\<lparr>notified := notified cb @ [(name cb, prev, st)]\<rparr>
           else cb)"

text \<open>\<^verbatim>\<open>currentState\<close> returns the state and the generation; the third component is
  the breaker as the call leaves it.\<close>

definition currentState :: "'e CircuitBreaker \<Rightarrow> time \<Rightarrow> State \<times> uint64 \<times> 'e CircuitBreaker" where
  "currentState cb now =
     (let cb =
        (case state cb of
           StateClosed \<Rightarrow>
             if \<not> IsZero (expiry cb) \<and> Before (expiry cb) now then toNewGeneration cb now
             else cb
         | StateOpen \<Rightarrow>
             if Before (expiry cb) now then setState cb StateHalfOpen now else cb
         | StateHalfOpen \<Rightarrow> cb)
      in (state cb, generation cb, cb))"

definition onSuccess :: "'e CircuitBreaker \<Rightarrow> State \<Rightarrow> time \<Rightarrow> 'e CircuitBreaker" where
  "onSuccess cb st now =
     (case st of
        StateClosed \<Rightarrow> cb\<lparr>counts := Counts_onSuccess (counts cb)\<rparr>
      | StateHalfOpen \<Rightarrow>
          (let cb = cb\<lparr>counts := Counts_onSuccess (counts cb)\<rparr>
           in if ConsecutiveSuccesses (counts cb) \<ge> maxRequests cb
              then setState cb StateClosed now else cb)
      | StateOpen \<Rightarrow> cb)"

definition onFailure :: "'e CircuitBreaker \<Rightarrow> State \<Rightarrow> time \<Rightarrow> 'e CircuitBreaker" where
  "onFailure cb st now =
     (case st of
        StateClosed \<Rightarrow>
          (let cb = cb\<lparr>counts := Counts_onFailure (counts cb)\<rparr>
           in if readyToTrip cb (counts cb) then setState cb StateOpen now else cb)
      | StateHalfOpen \<Rightarrow> setState cb StateOpen now
      | StateOpen \<Rightarrow> cb)"

subsection \<open>The request gate\<close>

text \<open>\<^verbatim>\<open>beforeRequest\<close> returns the generation and the error; the third component is
  the breaker as the call leaves it. \<open>now\<close> is the call's reading of the clock.\<close>

definition beforeRequest ::
  "'e CircuitBreaker \<Rightarrow> time \<Rightarrow> uint64 \<times> 'e error option \<times> 'e CircuitBreaker" where
  "beforeRequest cb now =
     (case currentState cb now of (st, gen, cb) \<Rightarrow>
        if st = StateOpen then (gen, Some ErrOpenState, cb)
        else if st = StateHalfOpen \<and> Requests (counts cb) \<ge> maxRequests cb
        then (gen, Some ErrTooManyRequests, cb)
        else (gen, None, cb\<lparr>counts := Counts_onRequest (counts cb)\<rparr>))"

definition afterRequest ::
  "'e CircuitBreaker \<Rightarrow> uint64 \<Rightarrow> bool \<Rightarrow> time \<Rightarrow> 'e CircuitBreaker" where
  "afterRequest cb before success now =
     (case currentState cb now of (st, gen, cb) \<Rightarrow>
        if gen \<noteq> before then cb
        else if success then onSuccess cb st now
        else onFailure cb st now)"

subsection \<open>Constructor and accessors\<close>

text \<open>The zero value \<^verbatim>\<open>new(CircuitBreaker)\<close> with the configuration fields as the
  constructor sets them; \<open>now\<close> is the constructor's reading of the clock.\<close>

definition NewCircuitBreaker :: "'e Settings \<Rightarrow> time \<Rightarrow> 'e CircuitBreaker" where
  "NewCircuitBreaker st now =
     toNewGeneration
       \<lparr>name = Name st,
        maxRequests = (if MaxRequests st = 0 then 1 else MaxRequests st),
        interval = (if Interval st \<le> 0 then defaultInterval else Interval st),
        timeout = (if Timeout st \<le> 0 then defaultTimeout else Timeout st),
        readyToTrip = (case ReadyToTrip st of None \<Rightarrow> defaultReadyToTrip | Some f \<Rightarrow> f),
        isSuccessful = (case IsSuccessful st of None \<Rightarrow> defaultIsSuccessful | Some f \<Rightarrow> f),
        onStateChange = OnStateChange st,
        state = StateClosed,
        generation = 0,
        counts = zeroCounts,
        expiry = zero,
        notified = []\<rparr>
       now"

definition CircuitBreaker_Name :: "'e CircuitBreaker \<Rightarrow> string" where
  "CircuitBreaker_Name cb = name cb"

definition CircuitBreaker_State :: "'e CircuitBreaker \<Rightarrow> time \<Rightarrow> State \<times> 'e CircuitBreaker" where
  "CircuitBreaker_State cb now =
     (case currentState cb now of (st, gen, cb) \<Rightarrow> (st, cb))"

definition CircuitBreaker_Counts :: "'e CircuitBreaker \<Rightarrow> Counts" where
  "CircuitBreaker_Counts cb = counts cb"

text \<open>The settings with every field at its zero value.\<close>

definition defaultSettings :: "'e Settings" where
  "defaultSettings =
     \<lparr>Name = [], MaxRequests = 0, Interval = 0, Timeout = 0,
      ReadyToTrip = None, OnStateChange = False, IsSuccessful = None\<rparr>"

subsection \<open>Execute\<close>

text \<open>
  What a call of the request does: it returns a result and an error, or it panics with
  a value. The value a deferred \<^verbatim>\<open>recover()\<close> sees for a panic is not \<^verbatim>\<open>nil\<close>.
\<close>

datatype ('r, 'e, 'p) outcome = Returns "'r option" "'e error option" | Panics 'p

text \<open>
  \<^verbatim>\<open>Execute\<close> holds the mutex inside \<^verbatim>\<open>beforeRequest\<close> and \<^verbatim>\<open>afterRequest\<close> only.
  The request runs between the two with the mutex released, so the request, or another
  goroutine meanwhile, may call the breaker's methods: \<open>req\<close> maps the breaker and the
  rest of the world \<open>w\<close> to the request's outcome and their new values. \<open>now1\<close> and
  \<open>now2\<close> are the clock readings of \<^verbatim>\<open>beforeRequest\<close> and \<^verbatim>\<open>afterRequest\<close>. The result
  is what \<^verbatim>\<open>Execute\<close> returns or the panic it ends with.
\<close>

definition Execute ::
  "'e CircuitBreaker \<Rightarrow> time \<Rightarrow>
   ('e CircuitBreaker \<Rightarrow> 'w \<Rightarrow> ('r, 'e, 'p) outcome \<times> 'e CircuitBreaker \<times> 'w) \<Rightarrow>
   time \<Rightarrow> 'w \<Rightarrow> ('r, 'e, 'p) outcome \<times> 'e CircuitBreaker \<times> 'w" where
  "Execute cb now1 req now2 w =
     (case beforeRequest cb now1 of (gen, err, cb) \<Rightarrow>
        if err \<noteq> None then (Returns None err, cb, w)
        else
          (case req cb w of
             (Panics e, cb, w) \<Rightarrow> (Panics e, afterRequest cb gen False now2, w)
           | (Returns result err, cb, w) \<Rightarrow>
               (Returns result err, afterRequest cb gen (isSuccessful cb err) now2, w)))"

subsection \<open>Executions\<close>

text \<open>
  An execution of a breaker is a sequence of its atomic steps, as its callers'
  goroutines interleave them:
  \<^item> \<open>Admit now\<close>: a call of \<^verbatim>\<open>beforeRequest\<close> (by \<^verbatim>\<open>Execute\<close> or \<^verbatim>\<open>Allow\<close>); when it
    admits, the caller holds the generation it returned;
  \<^item> \<open>Report g ok now\<close>: a call of \<^verbatim>\<open>afterRequest\<close> with a generation \<open>g\<close> a caller
    holds (\<^verbatim>\<open>Execute\<close> and the callback of \<^verbatim>\<open>Allow\<close> pass nothing else);
  \<^item> \<open>ReadState now\<close>: a call of \<^verbatim>\<open>State\<close>.
  \<^verbatim>\<open>Name\<close> and \<^verbatim>\<open>Counts\<close> change nothing and are no steps.

  Beside the breaker, a system keeps every generation handed out (\<open>issued\<close>), those
  whose request is admitted and not reported yet (\<open>pending\<close>), and the number of
  windows started so far, the constructor's included (\<open>windows\<close>: it grows by the
  distance the generation moves in a step).
\<close>

datatype event = Admit time | Report uint64 bool time | ReadState time

record 'e system =
  breaker :: "'e CircuitBreaker"
  issued :: "uint64 list"
  pending :: "uint64 list"
  windows :: nat

definition NewSystem :: "'e Settings \<Rightarrow> time \<Rightarrow> 'e system" where
  "NewSystem st now =
     \<lparr>breaker = NewCircuitBreaker st now, issued = [], pending = [], windows = 1\<rparr>"

definition moved :: "'e system \<Rightarrow> 'e CircuitBreaker \<Rightarrow> 'e system" where
  "moved s cb =
     s\<lparr>breaker := cb,
       windows := windows s + unat (generation cb - generation (breaker s))\<rparr>"

text \<open>
  A step is \<open>None\<close> when the event cannot happen. With \<open>strict\<close>, every admitted
  request is reported at most once (as \<^verbatim>\<open>Execute\<close> does): a report needs a pending
  generation. Without, the callback of \<^verbatim>\<open>Allow\<close> may be called any number of times: a
  report needs an issued generation.
\<close>

definition step :: "bool \<Rightarrow> 'e system \<Rightarrow> event \<Rightarrow> 'e system option" where
  "step strict s ev =
     (case ev of
        Admit now \<Rightarrow>
          (case beforeRequest (breaker s) now of (gen, err, cb) \<Rightarrow>
             if err = None
             then Some ((moved s cb)\<lparr>issued := gen # issued s, pending := gen # pending s\<rparr>)
             else Some (moved s cb))
      | Report g ok now \<Rightarrow>
          if g \<in> set (if strict then pending s else issued s)
          then Some ((moved s (afterRequest (breaker s) g ok now))
                       \<lparr>pending := remove1 g (pending s)\<rparr>)
          else None
      | ReadState now \<Rightarrow> Some (moved s (snd (CircuitBreaker_State (breaker s) now))))"

fun run :: "bool \<Rightarrow> 'e system \<Rightarrow> event list \<Rightarrow> 'e system option" where
  "run strict s [] = Some s"
| "run strict s (ev # evs) =
     (case step strict s ev of None \<Rightarrow> None | Some s' \<Rightarrow> run strict s' evs)"

text \<open>\<open>ticks n t\<close>: \<open>n\<close> readings of the state, 2 ns apart, the first at \<open>t\<close>.\<close>

fun ticks :: "nat \<Rightarrow> time \<Rightarrow> event list" where
  "ticks 0 t = []"
| "ticks (Suc n) t = ReadState t # ticks n (t + 2)"

text \<open>\<open>failures cb ts\<close>: one request after the other, each admitted at the first time
  of its pair and, when admitted, reported as failed at the second.\<close>

fun failures :: "'e CircuitBreaker \<Rightarrow> (time \<times> time) list \<Rightarrow> 'e CircuitBreaker" where
  "failures cb [] = cb"
| "failures cb ((t, u) # ts) =
     (case beforeRequest cb t of (gen, err, cb') \<Rightarrow>
        failures (if err = None then afterRequest cb' gen False u else cb') ts)"

text \<open>\<open>admissions cb ts\<close>: calls of \<^verbatim>\<open>beforeRequest\<close> at the times \<open>ts\<close>, none of them
  reported; the errors they return, in order, and the breaker after the last.\<close>

fun admissions ::
  "'e CircuitBreaker \<Rightarrow> time list \<Rightarrow> 'e error option list \<times> 'e CircuitBreaker" where
  "admissions cb [] = ([], cb)"
| "admissions cb (t # ts) =
     (case beforeRequest cb t of (gen, err, cb') \<Rightarrow>
        (case admissions cb' ts of (errs, cb'') \<Rightarrow> (err # errs, cb'')))"

subsection \<open>Example breakers\<close>

text \<open>A breaker with \<^verbatim>\<open>MaxRequests: 3\<close>, made at time 0 and set half-open at time 5.\<close>

definition halfOpen3 :: "nat CircuitBreaker" where
  "halfOpen3 =
     setState (NewCircuitBreaker (defaultSettings\<lparr>MaxRequests := 3\<rparr>) 0) StateHalfOpen 5"

text \<open>A fresh breaker of the default settings (made at time 1000) whose counts are
  set to six requests and five failures in a row; the times of six requests.\<close>

definition fiveFailures :: "nat CircuitBreaker" where
  "fiveFailures =
     (NewCircuitBreaker defaultSettings 1000)
       \<lparr>counts := zeroCounts\<lparr>Requests := 6, TotalFailures := 5, ConsecutiveFailures := 5\<rparr>\<rparr>"

definition sixTimes :: "(time \<times> time) list" where
  "sixTimes = [(1, 2), (3, 4), (5, 6), (7, 8), (9, 10), (11, 12)]"

text \<open>A breaker with \<^verbatim>\<open>Interval: 10\<close> made at time 100, and that breaker after three
  calls of \<^verbatim>\<open>beforeRequest\<close> at the times 101, 102 and 103.\<close>

definition interval10 :: "nat CircuitBreaker" where
  "interval10 = NewCircuitBreaker (defaultSettings\<lparr>Interval := 10\<rparr>) 100"

definition threeAdmitted :: "nat CircuitBreaker" where
  "threeAdmitted = snd (admissions interval10 [101, 102, 103])"

text \<open>Two requests that count their calls in the world: one returns a result and an
  error, one panics. A breaker of the default settings, and one set Open at time 1000.\<close>

definition failingRequest ::
  "nat CircuitBreaker \<Rightarrow> nat \<Rightarrow> (nat, nat, string) outcome \<times> nat CircuitBreaker \<times> nat" where
  "failingRequest cb w = (Returns (Some 42) (Some (OtherError 7)), cb, Suc w)"

definition panickingRequest ::
  "nat CircuitBreaker \<Rightarrow> nat \<Rightarrow> (nat, nat, string) outcome \<times> nat CircuitBreaker \<times> nat" where
  "panickingRequest cb w = (Panics ''boom'', cb, Suc w)"

definition openBreaker :: "nat CircuitBreaker" where
  "openBreaker = setState (NewCircuitBreaker defaultSettings 0) StateOpen 1000"

definition closedBreaker :: "nat CircuitBreaker" where
  "closedBreaker = NewCircuitBreaker defaultSettings 0"

subsection \<open>Invariants of executions\<close>

text \<open>The invariants of an execution in which the generation has not wrapped around.
  \<open>tokens_ok\<close>: the generation is the number of windows started; every pending
  generation was handed out; every generation handed out is at most the current one,
  and when it is the current one, the breaker is not Open.
  \<open>balanced\<close>: the requests counted are the reports counted and the requests of the
  current generation still pending.
  \<open>streak_ok\<close>: one of the two streak counters is zero.\<close>

definition tokens_ok :: "'e system \<Rightarrow> bool" where
  "tokens_ok s \<longleftrightarrow>
     unat (generation (breaker s)) = windows s \<and>
     set (pending s) \<subseteq> set (issued s) \<and>
     (\<forall>g \<in> set (issued s).
        unat g \<le> windows s \<and>
        (g = generation (breaker s) \<longrightarrow> state (breaker s) \<noteq> StateOpen))"

definition balanced :: "'e system \<Rightarrow> bool" where
  "balanced s \<longleftrightarrow>
     Requests (counts (breaker s)) =
       TotalSuccesses (counts (breaker s)) + TotalFailures (counts (breaker s)) +
       of_nat (count_list (pending s) (generation (breaker s)))"


subsection \<open>Example executions\<close>

text \<open>A predicate that trips at the first failure, and settings with it and an
  interval of 1 ns.\<close>

definition tripAlways :: "Counts \<Rightarrow> bool" where
  "tripAlways c = True"

definition wrapSettings :: "nat Settings" where
  "wrapSettings = defaultSettings\<lparr>Interval := 1, ReadyToTrip := Some tripAlways\<rparr>"

text \<open>One admission in the first window; then 2^64 - 1 readings of the state, each
  past the window of the one before, so that the generation reaches 0; then a request
  that fails and trips the breaker into generation 1 again.\<close>

definition wrapOpenTrace :: "event list" where
  "wrapOpenTrace =
     Admit 1 # ticks 18446744073709551615 3 @
     [Admit 36893488147419103231, Report 0 False 36893488147419103231]"

definition wrapOpenFinal :: "nat system" where
  "wrapOpenFinal =
     \<lparr>breaker =
        \<lparr>name = [], maxRequests = 1, interval = 1, timeout = 60000000000,
         readyToTrip = tripAlways, isSuccessful = defaultIsSuccessful,
         onStateChange = False, state = StateOpen, generation = 1, counts = zeroCounts,
         expiry = 36893488207419103231, notified = []\<rparr>,
      issued = [0, 1], pending = [1], windows = 18446744073709551617\<rparr>"

text \<open>One admission in the first window; then 2^64 readings of the state, each past
  the window of the one before, so that the generation is 1 again; then the report of
  the request admitted first.\<close>

definition wrapCountTrace :: "event list" where
  "wrapCountTrace =
     Admit 1 # ticks 18446744073709551616 3 @ [Report 1 True 36893488147419103233]"

definition wrapCountFinal :: "nat system" where
  "wrapCountFinal =
     \<lparr>breaker =
        \<lparr>name = [], maxRequests = 1, interval = 1, timeout = 60000000000,
         readyToTrip = tripAlways, isSuccessful = defaultIsSuccessful,
         onStateChange = False, state = StateClosed, generation = 1,
         counts = \<lparr>Requests = 0, TotalSuccesses = 1, TotalFailures = 0,
                   ConsecutiveSuccesses = 1, ConsecutiveFailures = 0\<rparr>,
         expiry = 36893488147419103234, notified = []\<rparr>,
      issued = [1], pending = [], windows = 18446744073709551617\<rparr>"

text \<open>A system of the default settings made at time 0, after one admission at
  time 5, and after the report of its success at time 6.\<close>

definition admittedOnce :: "nat system" where
  "admittedOnce =
     \<lparr>breaker = (NewCircuitBreaker defaultSettings 0)\<lparr>counts := zeroCounts\<lparr>Requests := 1\<rparr>\<rparr>,
      issued = [1], pending = [1], windows = 1\<rparr>"


section \<open>The constructor\<close>

lemma toNewGeneration_simps:
  "state (toNewGeneration cb now) = state cb"
  "generation (toNewGeneration cb now) = generation cb + 1"
  "counts (toNewGeneration cb now) = Counts_clear (counts cb)"
  "maxRequests (toNewGeneration cb now) = maxRequests cb"
  "interval (toNewGeneration cb now) = interval cb"
  "timeout (toNewGeneration cb now) = timeout cb"
  "readyToTrip (toNewGeneration cb now) = readyToTrip cb"
  "isSuccessful (toNewGeneration cb now) = isSuccessful cb"
  "onStateChange (toNewGeneration cb now) = onStateChange cb"
  "name (toNewGeneration cb now) = name cb"
  "notified (toNewGeneration cb now) = notified cb"
  "expiry (toNewGeneration cb now) =
     (case state cb of
        StateClosed \<Rightarrow> if interval cb = 0 then 0 else now + interval cb
      | StateOpen \<Rightarrow> now + timeout cb
      | StateHalfOpen \<Rightarrow> 0)"
  by (simp_all add: toNewGeneration_def Let_def zero_def Add_def split: State.split)

lemma Counts_clear_eq: "Counts_clear c = zeroCounts"
  by (simp add: Counts_clear_def zeroCounts_def)

text \<open>
  C10. Every breaker the constructor returns is Closed, has all five counters zero and
  generation 1 (the zero value advanced once). When the settings' interval is the
  default 0 (or negative), the initial expiry is the zero time, and then no reading of
  the current state, at any time and whatever the counts have grown to, starts a new
  window: state, generation and breaker are returned as they are.
\<close>

theorem NewCircuitBreaker_initial:
  "state (NewCircuitBreaker st now) = StateClosed \<and>
   counts (NewCircuitBreaker st now) = zeroCounts \<and>
   Requests (counts (NewCircuitBreaker st now)) = 0 \<and>
   TotalSuccesses (counts (NewCircuitBreaker st now)) = 0 \<and>
   TotalFailures (counts (NewCircuitBreaker st now)) = 0 \<and>
   ConsecutiveSuccesses (counts (NewCircuitBreaker st now)) = 0 \<and>
   ConsecutiveFailures (counts (NewCircuitBreaker st now)) = 0 \<and>
   generation (NewCircuitBreaker st now) = 1 \<and>
   (Interval st \<le> 0 \<longrightarrow>
      IsZero (expiry (NewCircuitBreaker st now)) \<and>
      (\<forall>t c. currentState ((NewCircuitBreaker st now)\<lparr>counts := c\<rparr>) t =
             (StateClosed, 1, (NewCircuitBreaker st now)\<lparr>counts := c\<rparr>)))"
  by (simp add: NewCircuitBreaker_def toNewGeneration_simps Counts_clear_eq
      currentState_def IsZero_def zero_def defaultInterval_def zeroCounts_def)

theorem NewCircuitBreaker_initial_witness:
  "Interval (defaultSettings :: nat Settings) \<le> 0 \<and>
   state (NewCircuitBreaker (defaultSettings :: nat Settings) 1000) = StateClosed \<and>
   generation (NewCircuitBreaker (defaultSettings :: nat Settings) 1000) = 1 \<and>
   counts (NewCircuitBreaker (defaultSettings :: nat Settings) 1000) = zeroCounts \<and>
   expiry (NewCircuitBreaker (defaultSettings :: nat Settings) 1000) = 0 \<and>
   currentState
     ((NewCircuitBreaker (defaultSettings :: nat Settings) 1000)
        \<lparr>counts := zeroCounts\<lparr>Requests := 3\<rparr>\<rparr>) 99999 =
     (StateClosed, 1,
      (NewCircuitBreaker defaultSettings 1000)\<lparr>counts := zeroCounts\<lparr>Requests := 3\<rparr>\<rparr>)"
proof -
  have i: "Interval (defaultSettings :: nat Settings) \<le> 0"
    by (simp add: defaultSettings_def)
  from NewCircuitBreaker_initial [of "defaultSettings :: nat Settings" 1000] i
  have "state (NewCircuitBreaker (defaultSettings :: nat Settings) 1000) = StateClosed \<and>
    generation (NewCircuitBreaker (defaultSettings :: nat Settings) 1000) = 1 \<and>
    counts (NewCircuitBreaker (defaultSettings :: nat Settings) 1000) = zeroCounts \<and>
    IsZero (expiry (NewCircuitBreaker (defaultSettings :: nat Settings) 1000)) \<and>
    (\<forall>t c. currentState ((NewCircuitBreaker (defaultSettings :: nat Settings) 1000)\<lparr>counts := c\<rparr>) t =
       (StateClosed, 1, (NewCircuitBreaker defaultSettings 1000)\<lparr>counts := c\<rparr>))"
    by blast
  with i show ?thesis
    by (simp add: IsZero_def zero_def)
qed

text \<open>The constructor leaves \<^verbatim>\<open>maxRequests\<close> and \<^verbatim>\<open>timeout\<close> positive and \<^verbatim>\<open>interval\<close>
  not negative, and no method changes them.\<close>

lemma NewCircuitBreaker_config:
  "maxRequests (NewCircuitBreaker st now) \<noteq> 0"
  "0 < timeout (NewCircuitBreaker st now)"
  "0 \<le> interval (NewCircuitBreaker st now)"
  by (simp_all add: NewCircuitBreaker_def toNewGeneration_simps defaultTimeout_def
      defaultInterval_def Second_def)

section \<open>Facts about the state machine\<close>

lemma setState_simps:
  "state (setState cb st now) = st"
  "generation (setState cb st now) = (if state cb = st then generation cb else generation cb + 1)"
  "counts (setState cb st now) = (if state cb = st then counts cb else zeroCounts)"
  "maxRequests (setState cb st now) = maxRequests cb"
  "interval (setState cb st now) = interval cb"
  "timeout (setState cb st now) = timeout cb"
  "readyToTrip (setState cb st now) = readyToTrip cb"
  "isSuccessful (setState cb st now) = isSuccessful cb"
  "onStateChange (setState cb st now) = onStateChange cb"
  "name (setState cb st now) = name cb"
  "notified (setState cb st now) =
     (if state cb \<noteq> st \<and> onStateChange cb then notified cb @ [(name cb, state cb, st)]
      else notified cb)"
  "expiry (setState cb st now) =
     (if state cb = st then expiry cb
      else case st of
        StateClosed \<Rightarrow> if interval cb = 0 then 0 else now + interval cb
      | StateOpen \<Rightarrow> now + timeout cb
      | StateHalfOpen \<Rightarrow> 0)"
  by (simp_all add: setState_def Let_def toNewGeneration_simps Counts_clear_eq split: State.split)

lemma currentState_Open:
  "state cb = StateOpen \<Longrightarrow>
   currentState cb now =
     (if expiry cb < now
      then (StateHalfOpen, generation cb + 1, setState cb StateHalfOpen now)
      else (StateOpen, generation cb, cb))"
  by (simp add: currentState_def Before_def Let_def setState_simps)

lemma currentState_HalfOpen:
  "state cb = StateHalfOpen \<Longrightarrow> currentState cb now = (StateHalfOpen, generation cb, cb)"
  by (simp add: currentState_def)

lemma currentState_Closed:
  "state cb = StateClosed \<Longrightarrow>
   currentState cb now =
     (if expiry cb \<noteq> 0 \<and> expiry cb < now
      then (StateClosed, generation cb + 1, toNewGeneration cb now)
      else (StateClosed, generation cb, cb))"
  by (simp add: currentState_def Before_def IsZero_def zero_def Let_def toNewGeneration_simps)

lemma config_unchanged:
  "maxRequests (snd (snd (currentState cb now))) = maxRequests cb"
  "maxRequests (snd (snd (beforeRequest cb now))) = maxRequests cb"
  "maxRequests (afterRequest cb g ok now) = maxRequests cb"
  "timeout (snd (snd (currentState cb now))) = timeout cb"
  "timeout (snd (snd (beforeRequest cb now))) = timeout cb"
  "timeout (afterRequest cb g ok now) = timeout cb"
  "interval (snd (snd (currentState cb now))) = interval cb"
  "interval (snd (snd (beforeRequest cb now))) = interval cb"
  "interval (afterRequest cb g ok now) = interval cb"
  by (cases "state cb"; cases ok;
      simp add: currentState_Closed currentState_HalfOpen currentState_Open beforeRequest_def
        afterRequest_def onSuccess_def onFailure_def Let_def setState_simps
        toNewGeneration_simps)+

lemma halfOpen3_simps:
  "state halfOpen3 = StateHalfOpen" "maxRequests halfOpen3 = 3"
  "counts halfOpen3 = zeroCounts" "generation halfOpen3 = 2"
  by (simp_all add: halfOpen3_def setState_simps NewCircuitBreaker_def toNewGeneration_simps
      defaultSettings_def)

section \<open>Stale reports\<close>

text \<open>
  C1. Let \<^verbatim>\<open>currentState\<close> at the report's time return the state \<open>st\<close> and the
  generation \<open>gen\<close> and leave the breaker \<open>cb1\<close> (the time reconciliation alone). A
  report whose generation \<open>before\<close> differs from \<open>gen\<close> leaves exactly \<open>cb1\<close>: nothing
  is recorded, and the counts are those of \<open>cb1\<close>. Only when \<open>before\<close> equals \<open>gen\<close> is
  the result that of \<^verbatim>\<open>onSuccess\<close> or \<^verbatim>\<open>onFailure\<close> on \<open>cb1\<close>.
\<close>

theorem afterRequest_stale_generation:
  assumes "currentState cb now = (st, gen, cb1)"
  shows "(gen \<noteq> before \<longrightarrow>
            afterRequest cb before success now = cb1 \<and>
            counts (afterRequest cb before success now) = counts cb1) \<and>
         (gen = before \<longrightarrow>
            afterRequest cb before success now =
              (if success then onSuccess cb1 st now else onFailure cb1 st now))"
  using assms by (simp add: afterRequest_def)

theorem afterRequest_stale_generation_witness:
  "currentState (NewCircuitBreaker (defaultSettings :: nat Settings) 1000) 2000 =
     (StateClosed, 1, NewCircuitBreaker defaultSettings 1000) \<and>
   afterRequest (NewCircuitBreaker (defaultSettings :: nat Settings) 1000) 7 False 2000 =
     NewCircuitBreaker defaultSettings 1000 \<and>
   afterRequest (NewCircuitBreaker (defaultSettings :: nat Settings) 1000) 1 False 2000 =
     onFailure (NewCircuitBreaker defaultSettings 1000) StateClosed 2000 \<and>
   counts (afterRequest (NewCircuitBreaker (defaultSettings :: nat Settings) 1000) 1 False 2000) =
     zeroCounts\<lparr>TotalFailures := 1, ConsecutiveFailures := 1\<rparr>"
proof -
  have cs: "currentState (NewCircuitBreaker (defaultSettings :: nat Settings) 1000) 2000 =
     (StateClosed, 1, NewCircuitBreaker defaultSettings 1000)"
    by (simp add: NewCircuitBreaker_def toNewGeneration_simps currentState_def IsZero_def
        zero_def defaultInterval_def defaultSettings_def)
  have "(1::uint64) \<noteq> 7" by simp
  with afterRequest_stale_generation [OF cs, of 7 False]
    afterRequest_stale_generation [OF cs, of 1 False] cs
  show ?thesis
    by (simp add: onFailure_def Let_def NewCircuitBreaker_def toNewGeneration_simps
        Counts_clear_eq Counts_onFailure_def zeroCounts_def defaultReadyToTrip_def
        defaultSettings_def)
qed

section \<open>The open state\<close>

lemma beforeRequest_Open:
  "state cb = StateOpen \<Longrightarrow> \<not> expiry cb < now \<Longrightarrow>
   beforeRequest cb now = (generation cb, Some ErrOpenState, cb)"
  by (simp add: beforeRequest_def currentState_Open)

lemma beforeRequest_Open_expired:
  "state cb = StateOpen \<Longrightarrow> expiry cb < now \<Longrightarrow> maxRequests cb \<noteq> 0 \<Longrightarrow>
   beforeRequest cb now =
     (generation cb + 1, None,
      (setState cb StateHalfOpen now)\<lparr>counts := Counts_onRequest zeroCounts\<rparr>)"
  by (simp add: beforeRequest_def currentState_Open setState_simps zeroCounts_def)

lemma admissions_append:
  "admissions cb (ts @ us) =
     (case admissions cb ts of (errs, cb') \<Rightarrow>
        (case admissions cb' us of (errs', cb'') \<Rightarrow> (errs @ errs', cb'')))"
  by (induction ts arbitrary: cb) (auto split: prod.splits)

lemma admissions_Open:
  "state cb = StateOpen \<Longrightarrow> \<forall>t \<in> set ts. t \<le> expiry cb \<Longrightarrow>
   admissions cb ts = (replicate (length ts) (Some ErrOpenState), cb)"
  by (induction ts) (simp_all add: beforeRequest_Open)

text \<open>
  C3. Let \<open>cb\<close> be a breaker just set to Open at time \<open>t0\<close> (from another state, with
  \<^verbatim>\<open>maxRequests\<close> not 0, as the constructor leaves it): its expiry is \<open>t0 + timeout\<close>.
  At every time \<open>t\<close> up to the expiry, \<^verbatim>\<open>beforeRequest\<close> returns \<^verbatim>\<open>ErrOpenState\<close> and
  changes nothing, so no counter moves; \<^verbatim>\<open>State\<close> and \<^verbatim>\<open>afterRequest\<close> (with any
  generation and outcome) leave the breaker Open and unchanged as well: only the clock
  takes the breaker out of Open. After any such rejected attempts, the first attempt
  at a time \<open>now\<close> past the expiry is admitted, leaves the breaker HalfOpen in the next
  generation, and its request is the one counted.
\<close>

theorem Open_until_timeout:
  assumes "state cb0 \<noteq> StateOpen" and "maxRequests cb0 \<noteq> 0"
    and "cb = setState cb0 StateOpen t0"
    and "\<forall>t \<in> set ts. t \<le> t0 + timeout cb0"
    and "t0 + timeout cb0 < now"
  shows "state cb = StateOpen \<and> expiry cb = t0 + timeout cb0 \<and>
         counts cb = zeroCounts \<and>
         (\<forall>t \<in> set ts.
            beforeRequest cb t = (generation cb, Some ErrOpenState, cb) \<and>
            CircuitBreaker_State cb t = (StateOpen, cb) \<and>
            (\<forall>g ok. afterRequest cb g ok t = cb)) \<and>
         (case admissions cb (ts @ [now]) of (errs, cb') \<Rightarrow>
            errs = replicate (length ts) (Some ErrOpenState) @ [None] \<and>
            state cb' = StateHalfOpen \<and>
            generation cb' = generation cb + 1 \<and>
            counts cb' = zeroCounts\<lparr>Requests := 1\<rparr>)"
proof -
  have st: "state cb = StateOpen" and ex: "expiry cb = t0 + timeout cb0"
    and cn: "counts cb = zeroCounts" and mx: "maxRequests cb \<noteq> 0"
    using assms(1,2,3) by (simp_all add: setState_simps)
  have early: "\<forall>t \<in> set ts. \<not> expiry cb < t"
    using assms(4) ex by auto
  have a: "\<forall>t \<in> set ts.
            beforeRequest cb t = (generation cb, Some ErrOpenState, cb) \<and>
            CircuitBreaker_State cb t = (StateOpen, cb) \<and>
            (\<forall>g ok. afterRequest cb g ok t = cb)"
    using st early
    by (auto simp: beforeRequest_Open CircuitBreaker_State_def afterRequest_def
        currentState_Open onSuccess_def onFailure_def)
  have b: "admissions cb ts = (replicate (length ts) (Some ErrOpenState), cb)"
    using st assms(4) ex by (simp add: admissions_Open)
  have c: "expiry cb < now" using assms(5) ex by simp
  show ?thesis
    using st ex cn a
    by (simp add: admissions_append b beforeRequest_Open_expired [OF st c mx]
        setState_simps Counts_onRequest_def zeroCounts_def)
qed

theorem Open_until_timeout_witness:
  "state (NewCircuitBreaker (defaultSettings :: nat Settings) 0) \<noteq> StateOpen \<and>
   maxRequests (NewCircuitBreaker (defaultSettings :: nat Settings) 0) \<noteq> 0 \<and>
   1000 + timeout (NewCircuitBreaker (defaultSettings :: nat Settings) 0) = 60000001000 \<and>
   fst (admissions (setState (NewCircuitBreaker (defaultSettings :: nat Settings) 0) StateOpen 1000)
          [1000, 2000, 60000001000, 60000001001]) =
     [Some ErrOpenState, Some ErrOpenState, Some ErrOpenState, None] \<and>
   state (snd (admissions (setState (NewCircuitBreaker (defaultSettings :: nat Settings) 0) StateOpen 1000)
          [1000, 2000, 60000001000, 60000001001])) = StateHalfOpen \<and>
   counts (snd (admissions (setState (NewCircuitBreaker (defaultSettings :: nat Settings) 0) StateOpen 1000)
          [1000, 2000, 60000001000, 60000001001])) = zeroCounts\<lparr>Requests := 1\<rparr>"
  using Open_until_timeout [of "NewCircuitBreaker (defaultSettings :: nat Settings) 0"
      "setState (NewCircuitBreaker (defaultSettings :: nat Settings) 0) StateOpen 1000"
      1000 "[1000, 2000, 60000001000]" 60000001001]
  by (simp add: NewCircuitBreaker_def toNewGeneration_simps defaultSettings_def
      defaultTimeout_def Second_def split: prod.splits)

section \<open>The half-open state\<close>

lemma beforeRequest_HalfOpen:
  "state cb = StateHalfOpen \<Longrightarrow>
   beforeRequest cb now =
     (if maxRequests cb \<le> Requests (counts cb)
      then (generation cb, Some ErrTooManyRequests, cb)
      else (generation cb, None, cb\<lparr>counts := Counts_onRequest (counts cb)\<rparr>))"
  by (simp add: beforeRequest_def currentState_HalfOpen)

lemma admissions_HalfOpen:
  "state cb = StateHalfOpen \<Longrightarrow>
   unat (Requests (counts cb)) + length ts \<le> unat (maxRequests cb) \<Longrightarrow>
   admissions cb ts =
     (replicate (length ts) None,
      cb\<lparr>counts := (counts cb)\<lparr>Requests := Requests (counts cb) + of_nat (length ts)\<rparr>\<rparr>)"
proof (induction ts arbitrary: cb)
  case Nil
  then show ?case by simp
next
  case (Cons t ts)
  let ?cb1 = "cb\<lparr>counts := Counts_onRequest (counts cb)\<rparr>"
  from Cons.prems(2) have lt: "unat (Requests (counts cb)) < unat (maxRequests cb)"
    by simp
  then have nle: "\<not> maxRequests cb \<le> Requests (counts cb)"
    by (simp add: word_le_nat_alt)
  have "unat (maxRequests cb) < 2 ^ 32"
    using unsigned_less [of "maxRequests cb", where 'a = nat] by simp
  with lt have "unat (Requests (counts cb)) + 1 < 2 ^ 32"
    by simp
  then have u: "unat (Requests (counts cb) + 1) = unat (Requests (counts cb)) + 1"
    by (simp add: unat_word_ariths)
  have br: "beforeRequest cb t = (generation cb, None, ?cb1)"
    using Cons.prems(1) nle by (simp add: beforeRequest_HalfOpen)
  have "admissions ?cb1 ts =
     (replicate (length ts) None,
      ?cb1\<lparr>counts := (counts ?cb1)\<lparr>Requests := Requests (counts ?cb1) + of_nat (length ts)\<rparr>\<rparr>)"
    using Cons.prems u by (intro Cons.IH) (simp_all add: Counts_onRequest_def)
  then show ?case
    by (simp add: br Counts_onRequest_def add.assoc)
qed

text \<open>
  C4. In a HalfOpen breaker, \<^verbatim>\<open>beforeRequest\<close> admits and counts the request while
  \<^verbatim>\<open>counts.Requests\<close> is below \<^verbatim>\<open>maxRequests\<close>, and returns \<^verbatim>\<open>ErrTooManyRequests\<close>
  and changes nothing once \<^verbatim>\<open>counts.Requests\<close> has reached \<^verbatim>\<open>maxRequests\<close>. From a
  request count of 0, of \<^verbatim>\<open>maxRequests\<close> + 1 attempts in a row the first
  \<^verbatim>\<open>maxRequests\<close> are admitted and the last is rejected. A report that leaves the
  breaker HalfOpen leaves the request count as it is, so the decision does not depend
  on whether the admitted probes have been reported.
\<close>

theorem HalfOpen_admits_maxRequests:
  assumes "state cb = StateHalfOpen"
  shows "(Requests (counts cb) < maxRequests cb \<longrightarrow>
            beforeRequest cb now =
              (generation cb, None,
               cb\<lparr>counts := (counts cb)\<lparr>Requests := Requests (counts cb) + 1\<rparr>\<rparr>)) \<and>
         (maxRequests cb \<le> Requests (counts cb) \<longrightarrow>
            beforeRequest cb now = (generation cb, Some ErrTooManyRequests, cb)) \<and>
         (Requests (counts cb) = 0 \<and> length ts = unat (maxRequests cb) \<longrightarrow>
            admissions cb (ts @ [now]) =
              (replicate (unat (maxRequests cb)) None @ [Some ErrTooManyRequests],
               cb\<lparr>counts := (counts cb)\<lparr>Requests := maxRequests cb\<rparr>\<rparr>)) \<and>
         (\<forall>g ok t. state (afterRequest cb g ok t) = StateHalfOpen \<longrightarrow>
            Requests (counts (afterRequest cb g ok t)) = Requests (counts cb))"
proof -
  have a: "Requests (counts cb) < maxRequests cb \<longrightarrow>
            beforeRequest cb now =
              (generation cb, None,
               cb\<lparr>counts := (counts cb)\<lparr>Requests := Requests (counts cb) + 1\<rparr>\<rparr>)"
    using assms by (simp add: beforeRequest_HalfOpen Counts_onRequest_def flip: not_less)
  have b: "maxRequests cb \<le> Requests (counts cb) \<longrightarrow>
            beforeRequest cb now = (generation cb, Some ErrTooManyRequests, cb)"
    using assms by (simp add: beforeRequest_HalfOpen)
  have c: "admissions cb (ts @ [now]) =
              (replicate (unat (maxRequests cb)) None @ [Some ErrTooManyRequests],
               cb\<lparr>counts := (counts cb)\<lparr>Requests := maxRequests cb\<rparr>\<rparr>)"
    if "Requests (counts cb) = 0" and "length ts = unat (maxRequests cb)"
  proof -
    have "admissions cb ts =
       (replicate (length ts) None,
        cb\<lparr>counts := (counts cb)\<lparr>Requests := Requests (counts cb) + of_nat (length ts)\<rparr>\<rparr>)"
      using assms that by (intro admissions_HalfOpen) simp_all
    then show ?thesis
      using assms that by (simp add: admissions_append beforeRequest_HalfOpen)
  qed
  have d: "\<forall>g ok t. state (afterRequest cb g ok t) = StateHalfOpen \<longrightarrow>
            Requests (counts (afterRequest cb g ok t)) = Requests (counts cb)"
    using assms
    by (auto simp: afterRequest_def currentState_HalfOpen onSuccess_def onFailure_def
        Let_def setState_simps Counts_onSuccess_def split: if_splits)
  from a b c d show ?thesis by blast
qed

theorem HalfOpen_admits_maxRequests_witness:
  "state halfOpen3 = StateHalfOpen \<and> Requests (counts halfOpen3) = 0 \<and>
   length [6, 7, 8 :: time] = unat (maxRequests halfOpen3) \<and>
   admissions halfOpen3 [6, 7, 8, 9] =
     ([None, None, None, Some ErrTooManyRequests],
      halfOpen3\<lparr>counts := zeroCounts\<lparr>Requests := 3\<rparr>\<rparr>)"
proof -
  have st: "state halfOpen3 = StateHalfOpen"
    by (simp add: halfOpen3_simps)
  have r0: "Requests (counts halfOpen3) = 0"
    by (simp add: halfOpen3_simps zeroCounts_def)
  have len: "length [6, 7, 8 :: time] = unat (maxRequests halfOpen3)"
    by (simp add: halfOpen3_simps)
  have rep: "replicate 3 (None :: nat error option) = [None, None, None]"
    by (simp add: numeral_3_eq_3)
  from HalfOpen_admits_maxRequests [OF st, of 9 "[6, 7, 8]"] r0 len
  have "admissions halfOpen3 ([6, 7, 8] @ [9]) =
     (replicate (unat (maxRequests halfOpen3)) None @ [Some ErrTooManyRequests],
      halfOpen3\<lparr>counts := (counts halfOpen3)\<lparr>Requests := maxRequests halfOpen3\<rparr>\<rparr>)"
    by blast
  then have "admissions halfOpen3 [6, 7, 8, 9] =
     ([None, None, None, Some ErrTooManyRequests],
      halfOpen3\<lparr>counts := zeroCounts\<lparr>Requests := 3\<rparr>\<rparr>)"
    by (simp add: halfOpen3_simps rep)
  with st r0 len show ?thesis by blast
qed

text \<open>
  C5. In a HalfOpen breaker, a success reported with the current generation, whose
  consecutive-success count after the increment is at least \<^verbatim>\<open>maxRequests\<close>, leaves
  the breaker Closed with all counts zero in the next generation (below
  \<^verbatim>\<open>maxRequests\<close>, the success is counted and nothing else changes). A failure reported
  with the current generation leaves the breaker Open with all counts zero, whatever
  the counts were, in the next generation, with expiry \<open>now + timeout\<close>.
\<close>

theorem HalfOpen_report:
  assumes "state cb = StateHalfOpen"
  shows "(maxRequests cb \<le> ConsecutiveSuccesses (counts cb) + 1 \<longrightarrow>
            state (afterRequest cb (generation cb) True now) = StateClosed \<and>
            counts (afterRequest cb (generation cb) True now) = zeroCounts \<and>
            generation (afterRequest cb (generation cb) True now) = generation cb + 1) \<and>
         (ConsecutiveSuccesses (counts cb) + 1 < maxRequests cb \<longrightarrow>
            afterRequest cb (generation cb) True now =
              cb\<lparr>counts := Counts_onSuccess (counts cb)\<rparr>) \<and>
         state (afterRequest cb (generation cb) False now) = StateOpen \<and>
         counts (afterRequest cb (generation cb) False now) = zeroCounts \<and>
         generation (afterRequest cb (generation cb) False now) = generation cb + 1 \<and>
         expiry (afterRequest cb (generation cb) False now) = now + timeout cb"
  using assms
  by (simp add: afterRequest_def currentState_HalfOpen onSuccess_def onFailure_def
      Let_def setState_simps Counts_onSuccess_def flip: not_less)

theorem HalfOpen_report_witness:
  "state (setState (NewCircuitBreaker (defaultSettings :: nat Settings) 0) StateHalfOpen 5)
     = StateHalfOpen \<and>
   state (afterRequest (setState (NewCircuitBreaker (defaultSettings :: nat Settings) 0) StateHalfOpen 5)
            2 True 6) = StateClosed \<and>
   counts (afterRequest (setState (NewCircuitBreaker (defaultSettings :: nat Settings) 0) StateHalfOpen 5)
            2 True 6) = zeroCounts \<and>
   state (afterRequest (setState (NewCircuitBreaker (defaultSettings :: nat Settings) 0) StateHalfOpen 5)
            2 False 6) = StateOpen \<and>
   counts (afterRequest (setState (NewCircuitBreaker (defaultSettings :: nat Settings) 0) StateHalfOpen 5)
            2 False 6) = zeroCounts"
  using HalfOpen_report
    [of "setState (NewCircuitBreaker (defaultSettings :: nat Settings) 0) StateHalfOpen 5" 6]
  by (simp add: setState_simps NewCircuitBreaker_def toNewGeneration_simps defaultSettings_def
      Counts_clear_eq zeroCounts_def)

section \<open>The closed state\<close>

lemma afterRequest_Closed_failure:
  assumes "state cb = StateClosed" and "currentState cb now = (st, before, cb1)"
  shows "st = StateClosed \<and> state cb1 = StateClosed \<and>
         afterRequest cb before False now =
           (if readyToTrip cb (Counts_onFailure (counts cb1))
            then setState (cb1\<lparr>counts := Counts_onFailure (counts cb1)\<rparr>) StateOpen now
            else cb1\<lparr>counts := Counts_onFailure (counts cb1)\<rparr>)"
  using assms
  by (auto simp: afterRequest_def currentState_Closed onFailure_def Let_def
      toNewGeneration_simps split: if_splits)

lemma failure_cycle:
  assumes "state cb = StateClosed" and "expiry cb = 0"
  shows "beforeRequest cb t = (generation cb, None, cb\<lparr>counts := Counts_onRequest (counts cb)\<rparr>)"
    and "afterRequest (cb\<lparr>counts := Counts_onRequest (counts cb)\<rparr>) (generation cb) False u =
           (if readyToTrip cb (Counts_onFailure (Counts_onRequest (counts cb)))
            then setState (cb\<lparr>counts := Counts_onFailure (Counts_onRequest (counts cb))\<rparr>) StateOpen u
            else cb\<lparr>counts := Counts_onFailure (Counts_onRequest (counts cb))\<rparr>)"
  using assms
  by (simp_all add: beforeRequest_def afterRequest_def currentState_Closed onFailure_def Let_def)

lemma failures_append:
  "failures cb (ts @ us) = failures (failures cb ts) us"
  by (induction cb ts rule: failures.induct) (simp_all split: prod.splits)

lemma failures_below_threshold:
  "state cb = StateClosed \<Longrightarrow> expiry cb = 0 \<Longrightarrow> readyToTrip cb = defaultReadyToTrip \<Longrightarrow>
   unat (ConsecutiveFailures (counts cb)) + length ts \<le> 5 \<Longrightarrow>
   state (failures cb ts) = StateClosed \<and> expiry (failures cb ts) = 0 \<and>
   readyToTrip (failures cb ts) = defaultReadyToTrip \<and>
   generation (failures cb ts) = generation cb \<and>
   ConsecutiveFailures (counts (failures cb ts)) =
     ConsecutiveFailures (counts cb) + of_nat (length ts)"
proof (induction ts arbitrary: cb)
  case Nil
  then show ?case by simp
next
  case (Cons p ts)
  obtain t u where p: "p = (t, u)" by (cases p)
  let ?c = "Counts_onFailure (Counts_onRequest (counts cb))"
  let ?cb1 = "cb\<lparr>counts := ?c\<rparr>"
  have cf: "ConsecutiveFailures ?c = ConsecutiveFailures (counts cb) + 1"
    by (simp add: Counts_onFailure_def Counts_onRequest_def)
  from Cons.prems(4) have small: "unat (ConsecutiveFailures (counts cb)) < 5"
    by simp
  then have u1: "unat (ConsecutiveFailures (counts cb) + 1) =
      unat (ConsecutiveFailures (counts cb)) + 1"
    by (simp add: unat_word_ariths)
  then have "unat (ConsecutiveFailures ?c) \<le> 5"
    using small cf by simp
  then have nt: "\<not> defaultReadyToTrip ?c"
    by (simp add: defaultReadyToTrip_def word_less_nat_alt)
  have fs: "failures cb (p # ts) = failures ?cb1 ts"
    using failure_cycle [OF Cons.prems(1,2), of t] failure_cycle(2) [OF Cons.prems(1,2), of u]
      nt Cons.prems(3)
    by (simp add: p)
  have "state (failures ?cb1 ts) = StateClosed \<and> expiry (failures ?cb1 ts) = 0 \<and>
   readyToTrip (failures ?cb1 ts) = defaultReadyToTrip \<and>
   generation (failures ?cb1 ts) = generation ?cb1 \<and>
   ConsecutiveFailures (counts (failures ?cb1 ts)) =
     ConsecutiveFailures (counts ?cb1) + of_nat (length ts)"
    using Cons.prems u1 by (intro Cons.IH) (simp_all add: cf)
  then show ?case
    by (simp add: fs cf add.assoc)
qed

text \<open>
  C2. Let a breaker be Closed, and let \<^verbatim>\<open>currentState\<close> at the report's time leave
  the breaker \<open>cb1\<close> and return the generation the report carries. A failure report
  counts the failure (\<^verbatim>\<open>TotalFailures\<close> and \<^verbatim>\<open>ConsecutiveFailures\<close> one more). When
  \<^verbatim>\<open>readyToTrip\<close> holds of the counts after the increment, the breaker is left Open,
  with all counts zero, expiry \<open>now + timeout\<close>, in the next generation; otherwise
  it is left as \<open>cb1\<close> with the failure counted. The default predicate holds exactly
  when \<^verbatim>\<open>ConsecutiveFailures\<close> after the increment is above 5. Under settings with the
  default predicate and interval, whatever the times: after fewer than six requests in
  a row, each reported as failed, the breaker is Closed; after six it is Open.
\<close>

theorem Closed_failure_trips:
  assumes "state cb = StateClosed" and "currentState cb now = (st, before, cb1)"
  shows "TotalFailures (Counts_onFailure (counts cb1)) = TotalFailures (counts cb1) + 1 \<and>
         ConsecutiveFailures (Counts_onFailure (counts cb1)) =
           ConsecutiveFailures (counts cb1) + 1 \<and>
         (readyToTrip cb (Counts_onFailure (counts cb1)) \<longrightarrow>
            state (afterRequest cb before False now) = StateOpen \<and>
            counts (afterRequest cb before False now) = zeroCounts \<and>
            expiry (afterRequest cb before False now) = now + timeout cb \<and>
            generation (afterRequest cb before False now) = before + 1) \<and>
         (\<not> readyToTrip cb (Counts_onFailure (counts cb1)) \<longrightarrow>
            afterRequest cb before False now =
              cb1\<lparr>counts := Counts_onFailure (counts cb1)\<rparr>) \<and>
         (defaultReadyToTrip (Counts_onFailure (counts cb1)) \<longleftrightarrow>
            5 < ConsecutiveFailures (counts cb1) + 1) \<and>
         (Interval s \<le> 0 \<and> ReadyToTrip s = None \<longrightarrow>
            (length ts < 6 \<longrightarrow> state (failures (NewCircuitBreaker s t0) ts) = StateClosed) \<and>
            (length ts = 6 \<longrightarrow> state (failures (NewCircuitBreaker s t0) ts) = StateOpen))"
proof -
  have a: "TotalFailures (Counts_onFailure (counts cb1)) = TotalFailures (counts cb1) + 1 \<and>
         ConsecutiveFailures (Counts_onFailure (counts cb1)) =
           ConsecutiveFailures (counts cb1) + 1 \<and>
         (defaultReadyToTrip (Counts_onFailure (counts cb1)) \<longleftrightarrow>
            5 < ConsecutiveFailures (counts cb1) + 1)"
    by (simp add: Counts_onFailure_def defaultReadyToTrip_def)
  note ar = afterRequest_Closed_failure [OF assms]
  have g: "generation cb1 = before" and t: "timeout cb1 = timeout cb"
    using assms by (auto simp: currentState_Closed toNewGeneration_simps split: if_splits)
  have b: "readyToTrip cb (Counts_onFailure (counts cb1)) \<longrightarrow>
            state (afterRequest cb before False now) = StateOpen \<and>
            counts (afterRequest cb before False now) = zeroCounts \<and>
            expiry (afterRequest cb before False now) = now + timeout cb \<and>
            generation (afterRequest cb before False now) = before + 1"
    using ar g t by (simp add: setState_simps)
  have c: "\<not> readyToTrip cb (Counts_onFailure (counts cb1)) \<longrightarrow>
            afterRequest cb before False now =
              cb1\<lparr>counts := Counts_onFailure (counts cb1)\<rparr>"
    using ar by simp
  have d: "(length ts < 6 \<longrightarrow> state (failures (NewCircuitBreaker s t0) ts) = StateClosed) \<and>
           (length ts = 6 \<longrightarrow> state (failures (NewCircuitBreaker s t0) ts) = StateOpen)"
    if s: "Interval s \<le> 0" "ReadyToTrip s = None"
  proof -
    let ?cb = "NewCircuitBreaker s t0"
    have init: "state ?cb = StateClosed" "expiry ?cb = 0" "readyToTrip ?cb = defaultReadyToTrip"
      "ConsecutiveFailures (counts ?cb) = 0"
      using s by (simp_all add: NewCircuitBreaker_def toNewGeneration_simps Counts_clear_eq
          zeroCounts_def defaultInterval_def)
    have below: "state (failures ?cb us) = StateClosed \<and> expiry (failures ?cb us) = 0 \<and>
        readyToTrip (failures ?cb us) = defaultReadyToTrip \<and>
        ConsecutiveFailures (counts (failures ?cb us)) = of_nat (length us)"
      if "length us \<le> 5" for us
      using failures_below_threshold [OF init(1,2,3), of us] that init(4) by simp
    have six: "state (failures ?cb ts) = StateOpen" if len: "length ts = 6"
    proof -
      from len obtain us p where ts: "ts = us @ [p]" and lus: "length us = 5"
        by (cases ts rule: rev_cases) auto
      obtain t u where p: "p = (t, u)" by (cases p)
      let ?cb5 = "failures ?cb us"
      from below [of us] lus have f: "state ?cb5 = StateClosed" "expiry ?cb5 = 0"
        "readyToTrip ?cb5 = defaultReadyToTrip" "ConsecutiveFailures (counts ?cb5) = 5"
        by simp_all
      have trip: "defaultReadyToTrip (Counts_onFailure (Counts_onRequest (counts ?cb5)))"
        using f(4) by (simp add: defaultReadyToTrip_def Counts_onFailure_def Counts_onRequest_def)
      show ?thesis
        using failure_cycle [OF f(1,2), of t] failure_cycle(2) [OF f(1,2), of u] trip f(3)
        by (simp add: ts p failures_append setState_simps)
    qed
    from below [of ts] six show ?thesis by simp
  qed
  from a b c d show ?thesis by blast
qed

lemma fiveFailures_simps:
  "state fiveFailures = StateClosed" "expiry fiveFailures = 0" "generation fiveFailures = 1"
  "readyToTrip fiveFailures = defaultReadyToTrip"
  "timeout fiveFailures = 60000000000"
  "counts fiveFailures =
     zeroCounts\<lparr>Requests := 6, TotalFailures := 5, ConsecutiveFailures := 5\<rparr>"
  by (simp_all add: fiveFailures_def NewCircuitBreaker_def toNewGeneration_simps
      defaultSettings_def defaultInterval_def defaultTimeout_def Second_def)

theorem Closed_failure_trips_witness:
  "state fiveFailures = StateClosed \<and>
   currentState fiveFailures 2000 = (StateClosed, 1, fiveFailures) \<and>
   readyToTrip fiveFailures (Counts_onFailure (counts fiveFailures)) \<and>
   state (afterRequest fiveFailures 1 False 2000) = StateOpen \<and>
   counts (afterRequest fiveFailures 1 False 2000) = zeroCounts \<and>
   expiry (afterRequest fiveFailures 1 False 2000) = 60000002000 \<and>
   Interval (defaultSettings :: nat Settings) \<le> 0 \<and>
   ReadyToTrip (defaultSettings :: nat Settings) = None \<and>
   state (failures (NewCircuitBreaker (defaultSettings :: nat Settings) 0) (butlast sixTimes))
     = StateClosed \<and>
   state (failures (NewCircuitBreaker (defaultSettings :: nat Settings) 0) sixTimes) = StateOpen"
proof -
  have st: "state fiveFailures = StateClosed"
    by (simp add: fiveFailures_simps)
  have cs: "currentState fiveFailures 2000 = (StateClosed, 1, fiveFailures)"
    by (simp add: currentState_Closed fiveFailures_simps)
  have tr: "readyToTrip fiveFailures (Counts_onFailure (counts fiveFailures))"
    by (simp add: fiveFailures_simps defaultReadyToTrip_def Counts_onFailure_def zeroCounts_def)
  have ds: "Interval (defaultSettings :: nat Settings) \<le> 0"
    "ReadyToTrip (defaultSettings :: nat Settings) = None"
    by (simp_all add: defaultSettings_def)
  have len: "length (butlast sixTimes) < 6" "length sixTimes = 6"
    by (simp_all add: sixTimes_def)
  from Closed_failure_trips [OF st cs, of "defaultSettings :: nat Settings" "butlast sixTimes" 0]
    tr ds len(1)
  have a: "state (afterRequest fiveFailures 1 False 2000) = StateOpen \<and>
      counts (afterRequest fiveFailures 1 False 2000) = zeroCounts \<and>
      expiry (afterRequest fiveFailures 1 False 2000) = 2000 + timeout fiveFailures \<and>
      state (failures (NewCircuitBreaker (defaultSettings :: nat Settings) 0) (butlast sixTimes))
        = StateClosed"
    by blast
  from Closed_failure_trips [OF st cs, of "defaultSettings :: nat Settings" sixTimes 0]
    ds len(2)
  have b: "state (failures (NewCircuitBreaker (defaultSettings :: nat Settings) 0) sixTimes)
      = StateOpen"
    by blast
  from a b st cs tr ds show ?thesis
    by (simp add: fiveFailures_simps)
qed

text \<open>
  What the calls that resolve the current state do to a Closed breaker whose expiry is
  set and has passed: \<^verbatim>\<open>State\<close> starts the next generation with all counts zero, and so
  do \<^verbatim>\<open>beforeRequest\<close>, which then counts its own request, and \<^verbatim>\<open>afterRequest\<close>, for
  which the generation of the old window is stale.
\<close>

lemma Closed_expiry_reconciled:
  assumes "state cb = StateClosed" and "expiry cb \<noteq> 0" and "expiry cb < now"
  shows "CircuitBreaker_State cb now = (StateClosed, toNewGeneration cb now)"
    and "counts (toNewGeneration cb now) = zeroCounts"
    and "beforeRequest cb now =
           (generation cb + 1, None,
            (toNewGeneration cb now)\<lparr>counts := zeroCounts\<lparr>Requests := 1\<rparr>\<rparr>)"
    and "afterRequest cb (generation cb) ok now = toNewGeneration cb now"
  using assms
  by (simp_all add: CircuitBreaker_State_def beforeRequest_def afterRequest_def
      currentState_Closed toNewGeneration_simps Counts_clear_eq Counts_onRequest_def
      zeroCounts_def)

lemma threeAdmitted_simps:
  "state threeAdmitted = StateClosed" "expiry threeAdmitted = 110"
  "interval threeAdmitted = 10" "generation threeAdmitted = 1"
  "counts threeAdmitted = zeroCounts\<lparr>Requests := 3\<rparr>"
  by (simp_all add: threeAdmitted_def interval10_def NewCircuitBreaker_def
      toNewGeneration_simps defaultSettings_def beforeRequest_def currentState_Closed
      Counts_onRequest_def Counts_clear_eq zeroCounts_def)

text \<open>
  C6, on the code. A breaker with an interval of 10 ns is made at time 100 and admits
  three requests at the times 101, 102 and 103: it is Closed, its window ends at 110.
  \<^verbatim>\<open>Counts\<close> takes no reading of the clock and returns the stored counts, with three
  requests, however far the clock is past 110; the claim has all counts zero there.
  \<^verbatim>\<open>State\<close> called at time 200 does start the next generation, and \<^verbatim>\<open>Counts\<close> returns
  all zero after it.
\<close>

theorem Counts_returns_expired_window:
  "admissions interval10 [101, 102, 103] = ([None, None, None], threeAdmitted) \<and>
   state threeAdmitted = StateClosed \<and> interval threeAdmitted = 10 \<and>
   expiry threeAdmitted = 110 \<and>
   CircuitBreaker_Counts threeAdmitted = zeroCounts\<lparr>Requests := 3\<rparr> \<and>
   CircuitBreaker_Counts threeAdmitted \<noteq> zeroCounts \<and>
   fst (CircuitBreaker_State threeAdmitted 200) = StateClosed \<and>
   generation (snd (CircuitBreaker_State threeAdmitted 200)) = 2 \<and>
   CircuitBreaker_Counts (snd (CircuitBreaker_State threeAdmitted 200)) = zeroCounts"
proof -
  have a: "admissions interval10 [101, 102, 103] = ([None, None, None], threeAdmitted)"
    by (simp add: threeAdmitted_def interval10_def NewCircuitBreaker_def
        toNewGeneration_simps defaultSettings_def beforeRequest_def currentState_Closed)
  have b: "CircuitBreaker_State threeAdmitted 200 =
      (StateClosed, toNewGeneration threeAdmitted 200)"
    by (rule Closed_expiry_reconciled) (simp_all add: threeAdmitted_simps)
  from a b show ?thesis
    by (simp add: threeAdmitted_simps CircuitBreaker_Counts_def toNewGeneration_simps
        Counts_clear_eq zeroCounts_def)
qed

section \<open>Execute\<close>

text \<open>
  C8. Let \<^verbatim>\<open>beforeRequest\<close> return the generation \<open>gen\<close> and the error \<open>err\<close> and leave
  the breaker \<open>cb1\<close>. When \<open>err\<close> is an error, \<^verbatim>\<open>Execute\<close> returns \<^verbatim>\<open>nil\<close> and that
  error, and the world is as it was, whatever the request would do: the request is not
  called. Otherwise the request is called once, on \<open>cb1\<close> and the world: when it
  returns, \<^verbatim>\<open>Execute\<close> returns its result and error as they are, after
  \<^verbatim>\<open>afterRequest\<close> with \<open>gen\<close> and \<^verbatim>\<open>isSuccessful\<close> of the error; when it panics,
  \<^verbatim>\<open>Execute\<close> ends in the same panic after \<^verbatim>\<open>afterRequest\<close> with \<open>gen\<close> and
  \<^verbatim>\<open>false\<close>.
\<close>

theorem Execute_passes_result_through:
  assumes "beforeRequest cb now1 = (gen, err, cb1)"
  shows "(err \<noteq> None \<longrightarrow> Execute cb now1 req now2 w = (Returns None err, cb1, w)) \<and>
         (err = None \<longrightarrow>
            (\<forall>result e cb2 w2. req cb1 w = (Returns result e, cb2, w2) \<longrightarrow>
               Execute cb now1 req now2 w =
                 (Returns result e, afterRequest cb2 gen (isSuccessful cb2 e) now2, w2)) \<and>
            (\<forall>p cb2 w2. req cb1 w = (Panics p, cb2, w2) \<longrightarrow>
               Execute cb now1 req now2 w =
                 (Panics p, afterRequest cb2 gen False now2, w2)))"
  using assms by (simp add: Execute_def)

lemma closedBreaker_simps:
  "state closedBreaker = StateClosed" "expiry closedBreaker = 0" "generation closedBreaker = 1"
  "counts closedBreaker = zeroCounts" "isSuccessful closedBreaker = defaultIsSuccessful"
  "readyToTrip closedBreaker = defaultReadyToTrip"
  by (simp_all add: closedBreaker_def NewCircuitBreaker_def toNewGeneration_simps
      defaultSettings_def defaultInterval_def Counts_clear_eq)

lemma openBreaker_simps:
  "state openBreaker = StateOpen" "expiry openBreaker = 60000001000" "generation openBreaker = 2"
  by (simp_all add: openBreaker_def setState_simps NewCircuitBreaker_def toNewGeneration_simps
      defaultSettings_def defaultTimeout_def Second_def)

theorem Execute_passes_result_through_witness:
  "beforeRequest openBreaker 2000 = (2, Some ErrOpenState, openBreaker) \<and>
   Execute openBreaker 2000 failingRequest 3000 0 =
     (Returns None (Some ErrOpenState), openBreaker, 0) \<and>
   beforeRequest closedBreaker 2000 =
     (1, None, closedBreaker\<lparr>counts := zeroCounts\<lparr>Requests := 1\<rparr>\<rparr>) \<and>
   Execute closedBreaker 2000 failingRequest 3000 0 =
     (Returns (Some 42) (Some (OtherError 7)),
      closedBreaker\<lparr>counts := zeroCounts\<lparr>Requests := 1, TotalFailures := 1,
         ConsecutiveFailures := 1\<rparr>\<rparr>, 1) \<and>
   Execute closedBreaker 2000 panickingRequest 3000 0 =
     (Panics ''boom'',
      closedBreaker\<lparr>counts := zeroCounts\<lparr>Requests := 1, TotalFailures := 1,
         ConsecutiveFailures := 1\<rparr>\<rparr>, 1)"
proof -
  let ?cb1 = "closedBreaker\<lparr>counts := zeroCounts\<lparr>Requests := 1\<rparr>\<rparr>"
  let ?cb2 = "closedBreaker\<lparr>counts := zeroCounts\<lparr>Requests := 1, TotalFailures := 1,
         ConsecutiveFailures := 1\<rparr>\<rparr>"
  have o: "beforeRequest openBreaker 2000 = (2, Some ErrOpenState, openBreaker)"
    using beforeRequest_Open [of openBreaker 2000] by (simp add: openBreaker_simps)
  have c: "beforeRequest closedBreaker 2000 = (1, None, ?cb1)"
    by (simp add: beforeRequest_def currentState_Closed closedBreaker_simps
        Counts_onRequest_def zeroCounts_def)
  have ar: "afterRequest ?cb1 1 False 3000 = ?cb2"
    by (simp add: afterRequest_def currentState_Closed closedBreaker_simps onFailure_def
        Let_def Counts_onFailure_def zeroCounts_def defaultReadyToTrip_def)
  have r: "failingRequest ?cb1 0 = (Returns (Some 42) (Some (OtherError 7)), ?cb1, 1)"
    "panickingRequest ?cb1 0 = (Panics ''boom'', ?cb1, 1)"
    by (simp_all add: failingRequest_def panickingRequest_def)
  have f: "\<not> isSuccessful ?cb1 (Some (OtherError 7))"
    by (simp add: closedBreaker_simps defaultIsSuccessful_def)
  from Execute_passes_result_through [OF o, of failingRequest 3000 0]
  have 1: "Execute openBreaker 2000 failingRequest 3000 0 =
     (Returns None (Some ErrOpenState), openBreaker, 0)"
    by simp
  from Execute_passes_result_through [OF c, of failingRequest 3000 0] r(1) f ar
  have 2: "Execute closedBreaker 2000 failingRequest 3000 0 =
     (Returns (Some 42) (Some (OtherError 7)), ?cb2, 1)"
    by simp
  from Execute_passes_result_through [OF c, of panickingRequest 3000 0] r(2) ar
  have 3: "Execute closedBreaker 2000 panickingRequest 3000 0 = (Panics ''boom'', ?cb2, 1)"
    by simp
  from o c 1 2 3 show ?thesis by simp
qed

section \<open>Invariants of executions\<close>

lemma currentState_cases:
  obtains (same) "currentState cb now = (state cb, generation cb, cb)"
  | (new) cb' where "currentState cb now = (state cb', generation cb + 1, cb')"
      "generation cb' = generation cb + 1" "counts cb' = zeroCounts"
      "state cb' \<noteq> StateOpen"
proof (cases "state cb")
  case StateClosed
  then show ?thesis
    using that by (cases "expiry cb \<noteq> 0 \<and> expiry cb < now")
      (simp_all add: currentState_Closed toNewGeneration_simps Counts_clear_eq)
next
  case StateHalfOpen
  then show ?thesis using that by (simp add: currentState_HalfOpen)
next
  case StateOpen
  then show ?thesis
    using that by (cases "expiry cb < now") (simp_all add: currentState_Open setState_simps)
qed

lemma report_effect:
  assumes "state cb \<noteq> StateOpen"
    and "r = (if ok then onSuccess cb (state cb) now else onFailure cb (state cb) now)"
  shows "(generation r = generation cb \<and> state r = state cb \<and>
          counts r = (if ok then Counts_onSuccess (counts cb) else Counts_onFailure (counts cb))) \<or>
         (generation r = generation cb + 1 \<and> counts r = zeroCounts)"
proof (cases "state cb")
  case StateClosed
  then show ?thesis
    using assms(2) by (simp add: onSuccess_def onFailure_def Let_def setState_simps)
next
  case StateHalfOpen
  then show ?thesis
    using assms(2) by (simp add: onSuccess_def onFailure_def Let_def setState_simps)
next
  case StateOpen
  with assms(1) show ?thesis by simp
qed

lemma moved_same:
  "generation cb' = generation (breaker s) \<Longrightarrow> moved s cb' = s\<lparr>breaker := cb'\<rparr>"
  by (simp add: moved_def)

lemma moved_next:
  "generation cb' = generation (breaker s) + 1 \<Longrightarrow>
   moved s cb' = s\<lparr>breaker := cb', windows := Suc (windows s)\<rparr>"
  by (simp add: moved_def)

lemma moved_simps:
  "breaker (moved s cb') = cb'" "issued (moved s cb') = issued s"
  "pending (moved s cb') = pending s" "windows s \<le> windows (moved s cb')"
  by (simp_all add: moved_def)

lemma moved_moved:
  assumes "generation cb1 = generation (breaker s) \<or> generation cb1 = generation (breaker s) + 1"
    and "generation cb2 = generation cb1 \<or> generation cb2 = generation cb1 + 1"
  shows "moved (moved s cb1) cb2 = moved s cb2"
  using assms by (auto simp: moved_def)

lemma tokens_ok_same:
  assumes "tokens_ok s" and "generation cb' = generation (breaker s)"
    and "state cb' = state (breaker s)"
  shows "tokens_ok (moved s cb')"
  using assms by (simp add: moved_same tokens_ok_def)

lemma unat_next:
  assumes "unat (g :: uint64) = n" and "Suc n < 2 ^ 64"
  shows "unat (g + 1) = Suc n"
  using assms by (simp add: unat_word_ariths)

lemma tokens_ok_next:
  assumes "tokens_ok s" and "generation cb' = generation (breaker s) + 1"
    and "windows (moved s cb') < 2 ^ 64"
  shows "tokens_ok (moved s cb')" and "generation cb' \<notin> set (issued s)"
    and "generation cb' \<notin> set (pending s)"
proof -
  from assms(2) have m: "moved s cb' = s\<lparr>breaker := cb', windows := Suc (windows s)\<rparr>"
    by (rule moved_next)
  with assms(3) have b: "Suc (windows s) < 2 ^ 64" by simp
  from assms(1) have u: "unat (generation (breaker s)) = windows s"
    by (simp add: tokens_ok_def)
  have u': "unat (generation cb') = Suc (windows s)"
    using unat_next [OF u b] assms(2) by simp
  from assms(1) have le: "\<forall>g \<in> set (issued s). unat g \<le> windows s"
    by (simp add: tokens_ok_def)
  with u' show ni: "generation cb' \<notin> set (issued s)" by auto
  from assms(1) have sub: "set (pending s) \<subseteq> set (issued s)"
    by (simp add: tokens_ok_def)
  with ni show "generation cb' \<notin> set (pending s)" by auto
  from le ni sub u' show "tokens_ok (moved s cb')"
    by (auto simp: m tokens_ok_def le_Suc_eq)
qed

lemma balanced_next:
  assumes "tokens_ok s" and "generation cb' = generation (breaker s) + 1"
    and "counts cb' = zeroCounts" and "windows (moved s cb') < 2 ^ 64"
  shows "balanced (moved s cb')"
  using tokens_ok_next(3) [OF assms(1,2,4)] assms(3)
  by (simp add: balanced_def moved_simps zeroCounts_def)

lemma reconcile_ok:
  assumes "tokens_ok s" and "currentState (breaker s) now = (st, gen, cb1)"
    and "windows (moved s cb1) < 2 ^ 64"
  shows "tokens_ok (moved s cb1)" and "balanced s \<longrightarrow> balanced (moved s cb1)"
    and "st = state cb1" and "gen = generation cb1"
    and "generation cb1 = generation (breaker s) \<or> generation cb1 = generation (breaker s) + 1"
proof -
  have "tokens_ok (moved s cb1) \<and> (balanced s \<longrightarrow> balanced (moved s cb1)) \<and>
    st = state cb1 \<and> gen = generation cb1 \<and>
    (generation cb1 = generation (breaker s) \<or> generation cb1 = generation (breaker s) + 1)"
  proof (cases rule: currentState_cases [of "breaker s" now])
    case same
    with assms(2) have "cb1 = breaker s" "st = state cb1" "gen = generation cb1" by auto
    with assms(1) show ?thesis by (simp add: moved_same)
  next
    case (new cb')
    with assms(2) have eq: "cb1 = cb'" "st = state cb1" "gen = generation cb1" by auto
    with new have g: "generation cb1 = generation (breaker s) + 1" and c: "counts cb1 = zeroCounts"
      by simp_all
    from tokens_ok_next(1) [OF assms(1) g assms(3)] balanced_next [OF assms(1) g c assms(3)] eq g
    show ?thesis by simp
  qed
  then show "tokens_ok (moved s cb1)" and "balanced s \<longrightarrow> balanced (moved s cb1)"
    and "st = state cb1" and "gen = generation cb1"
    and "generation cb1 = generation (breaker s) \<or> generation cb1 = generation (breaker s) + 1"
    by blast+
qed

lemma moved_counts:
  "moved s (cb\<lparr>counts := c\<rparr>) = (moved s cb)\<lparr>breaker := cb\<lparr>counts := c\<rparr>\<rparr>"
  by (simp add: moved_def)

lemma admit_ok:
  assumes "tokens_ok s" and "strict \<longrightarrow> balanced s"
    and "step strict s (Admit now) = Some s'" and "windows s' < 2 ^ 64"
  shows "tokens_ok s' \<and> (strict \<longrightarrow> balanced s')"
proof -
  obtain st gen cb1 where cs: "currentState (breaker s) now = (st, gen, cb1)"
    by (cases "currentState (breaker s) now")
  let ?s1 = "moved s cb1"
  define admit where
    "admit \<longleftrightarrow> \<not> (st = StateOpen \<or> st = StateHalfOpen \<and> maxRequests cb1 \<le> Requests (counts cb1))"
  have s': "s' = (if admit
      then ?s1\<lparr>breaker := cb1\<lparr>counts := Counts_onRequest (counts cb1)\<rparr>,
               issued := gen # issued s, pending := gen # pending s\<rparr>
      else ?s1)"
    using assms(3) by (auto simp: step_def beforeRequest_def cs moved_counts admit_def)
  then have w: "windows s' = windows ?s1"
    by simp
  note r = reconcile_ok [OF assms(1) cs assms(4) [unfolded w]]
  show ?thesis
  proof (cases admit)
    case False
    with s' have "s' = ?s1" by simp
    with r assms(2) show ?thesis by simp
  next
    case True
    with r(3) have no: "state cb1 \<noteq> StateOpen" by (simp add: admit_def)
    from True s' have s'': "s' = ?s1\<lparr>breaker := cb1\<lparr>counts := Counts_onRequest (counts cb1)\<rparr>,
               issued := gen # issued s, pending := gen # pending s\<rparr>"
      by simp
    from r(1) have t: "unat (generation cb1) = windows ?s1"
      "set (pending s) \<subseteq> set (issued s)"
      "\<forall>g \<in> set (issued s). unat g \<le> windows ?s1"
      by (simp_all add: tokens_ok_def moved_simps)
    have 1: "tokens_ok s'"
      using s'' t no r(4) by (auto simp: tokens_ok_def)
    have 2: "balanced s'" if strict
    proof -
      from that assms(2) r(2) have "balanced ?s1" by simp
      then show ?thesis
        using s'' r(4) by (simp add: balanced_def moved_simps Counts_onRequest_def)
    qed
    from 1 2 show ?thesis by simp
  qed
qed

lemma readState_ok:
  assumes "tokens_ok s" and "strict \<longrightarrow> balanced s"
    and "step strict s (ReadState now) = Some s'" and "windows s' < 2 ^ 64"
  shows "tokens_ok s' \<and> (strict \<longrightarrow> balanced s')"
proof -
  obtain st gen cb1 where cs: "currentState (breaker s) now = (st, gen, cb1)"
    by (cases "currentState (breaker s) now")
  have s': "s' = moved s cb1"
    using assms(3) by (auto simp: step_def CircuitBreaker_State_def cs)
  from reconcile_ok(1,2) [OF assms(1) cs assms(4) [unfolded s']] assms(2) s'
  show ?thesis by simp
qed

lemma report_gen:
  assumes "r = (if ok then onSuccess cb st now else onFailure cb st now)"
  shows "generation r = generation cb \<or> generation r = generation cb + 1"
  using assms
  by (cases st; cases ok) (simp_all add: onSuccess_def onFailure_def Let_def setState_simps)

lemma count_list_remove1_other:
  "g \<noteq> h \<Longrightarrow> count_list (remove1 g xs) h = count_list xs h"
  by (induction xs) auto

lemma count_list_remove1_same:
  "g \<in> set xs \<Longrightarrow> Suc (count_list (remove1 g xs) g) = count_list xs g"
  by (induction xs) auto

lemma tokens_ok_remove1:
  "tokens_ok s \<Longrightarrow> tokens_ok (s\<lparr>pending := remove1 g (pending s)\<rparr>)"
  using set_remove1_subset [of g "pending s"] by (auto simp: tokens_ok_def)

lemma report_ok:
  assumes "tokens_ok s" and "strict \<longrightarrow> balanced s"
    and "step strict s (Report g ok now) = Some s'" and "windows s' < 2 ^ 64"
  shows "tokens_ok s' \<and> (strict \<longrightarrow> balanced s')"
proof -
  obtain st gen cb1 where cs: "currentState (breaker s) now = (st, gen, cb1)"
    by (cases "currentState (breaker s) now")
  let ?s1 = "moved s cb1"
  define r where "r = (if ok then onSuccess cb1 st now else onFailure cb1 st now)"
  define cbf where "cbf = (if gen \<noteq> g then cb1 else r)"
  from assms(1) have sub: "set (pending s) \<subseteq> set (issued s)"
    by (simp add: tokens_ok_def)
  from assms(3) have legal: "g \<in> set (if strict then pending s else issued s)"
    and s': "s' = (moved s cbf)\<lparr>pending := remove1 g (pending s)\<rparr>"
    by (auto simp: step_def afterRequest_def cs cbf_def r_def split: if_splits)
  from legal sub have gi: "g \<in> set (issued s)"
    by (auto split: if_splits)
  have g1: "generation cb1 = generation (breaker s) \<or> generation cb1 = generation (breaker s) + 1"
    and st: "st = state cb1" and gen: "gen = generation cb1"
    using cs by (cases rule: currentState_cases [of "breaker s" now]; auto)+
  have gf: "generation cbf = generation cb1 \<or> generation cbf = generation cb1 + 1"
    using report_gen [OF r_def] by (auto simp: cbf_def)
  have mm: "moved ?s1 cbf = moved s cbf"
    using g1 gf by (rule moved_moved)
  have "windows ?s1 \<le> windows (moved ?s1 cbf)"
    by (rule moved_simps)
  with mm s' assms(4) have w1: "windows ?s1 < 2 ^ 64"
    by simp
  note rc = reconcile_ok(1,2) [OF assms(1) cs w1]
  from assms(2) rc(2) have b1: "strict \<longrightarrow> balanced ?s1" by simp
  show ?thesis
  proof (cases "gen = g")
    case False
    then have s'': "s' = ?s1\<lparr>pending := remove1 g (pending ?s1)\<rparr>"
      using s' by (simp add: cbf_def moved_simps)
    have "balanced s'" if strict
      using that b1 False gen
      by (simp add: s'' balanced_def moved_simps count_list_remove1_other)
    with tokens_ok_remove1 [OF rc(1), of g] s'' show ?thesis by simp
  next
    case True
    then have cbf: "cbf = r" by (simp add: cbf_def)
    from True gen gi rc(1) have no: "state cb1 \<noteq> StateOpen"
      by (auto simp: tokens_ok_def moved_simps)
    have s'': "s' = (moved ?s1 r)\<lparr>pending := remove1 g (pending (moved ?s1 r))\<rparr>"
      using s' mm cbf by (simp add: moved_simps)
    from report_effect [OF no r_def [unfolded st]] st
    consider (counted) "generation r = generation cb1" "state r = state cb1"
        "counts r = (if ok then Counts_onSuccess (counts cb1) else Counts_onFailure (counts cb1))"
      | (new) "generation r = generation cb1 + 1" "counts r = zeroCounts"
      by blast
    then show ?thesis
    proof cases
      case counted
      have "tokens_ok (moved ?s1 r)"
        by (rule tokens_ok_same [OF rc(1)]) (simp_all add: counted moved_simps)
      then have 1: "tokens_ok s'"
        unfolding s'' by (rule tokens_ok_remove1)
      have 2: "balanced s'" if strict
      proof -
        from that legal have "g \<in> set (pending s)" by simp
        from count_list_remove1_same [OF this]
        have c: "count_list (pending s) g = Suc (count_list (remove1 g (pending s)) g)"
          by simp
        from that b1 have "balanced ?s1" by simp
        then show ?thesis
          using counted(1,3) True gen c
          by (simp add: s'' balanced_def moved_simps moved_same Counts_onSuccess_def
              Counts_onFailure_def)
      qed
      from 1 2 show ?thesis by simp
    next
      case new
      have w: "windows (moved ?s1 r) < 2 ^ 64"
        using assms(4) by (simp add: s'')
      have gb: "generation r = generation (breaker ?s1) + 1"
        using new(1) by (simp add: moved_simps)
      note n = tokens_ok_next [OF rc(1) gb w]
      from n(1) have 1: "tokens_ok s'"
        unfolding s'' by (rule tokens_ok_remove1)
      from n(3) have "generation r \<notin> set (remove1 g (pending s))"
        using set_remove1_subset [of g "pending s"] by (auto simp: moved_simps)
      then have "count_list (remove1 g (pending s)) (generation r) = 0"
        by (rule count_notin)
      then have 2: "balanced s'"
        using new(2) by (simp add: s'' balanced_def moved_simps zeroCounts_def
            del: count_list_remove1)
      from 1 2 show ?thesis by simp
    qed
  qed
qed

lemma step_ok:
  assumes "tokens_ok s" and "strict \<longrightarrow> balanced s"
    and "step strict s ev = Some s'" and "windows s' < 2 ^ 64"
  shows "tokens_ok s' \<and> (strict \<longrightarrow> balanced s')"
proof (cases ev)
  case (Admit now)
  from admit_ok [OF assms(1,2) assms(3) [unfolded Admit] assms(4)] show ?thesis .
next
  case (Report g ok now)
  from report_ok [OF assms(1,2) assms(3) [unfolded Report] assms(4)] show ?thesis .
next
  case (ReadState now)
  from readState_ok [OF assms(1,2) assms(3) [unfolded ReadState] assms(4)] show ?thesis .
qed

lemma step_windows:
  assumes "step strict s ev = Some s'"
  shows "windows s \<le> windows s'"
proof (cases ev)
  case (Admit now)
  with assms show ?thesis
    by (cases "beforeRequest (breaker s) now") (auto simp: step_def moved_def split: if_splits)
next
  case (Report g ok now)
  with assms show ?thesis
    by (auto simp: step_def moved_def split: if_splits)
next
  case (ReadState now)
  with assms show ?thesis
    by (auto simp: step_def moved_def)
qed

lemma run_windows:
  "run strict s evs = Some s' \<Longrightarrow> windows s \<le> windows s'"
proof (induction evs arbitrary: s)
  case Nil
  then show ?case by simp
next
  case (Cons ev evs)
  from Cons.prems obtain s1 where 1: "step strict s ev = Some s1"
    and 2: "run strict s1 evs = Some s'"
    by (auto split: option.splits)
  from step_windows [OF 1] Cons.IH [OF 2] show ?case by simp
qed

lemma run_ok:
  assumes "run strict s evs = Some s'" and "tokens_ok s" and "strict \<longrightarrow> balanced s"
    and "windows s' < 2 ^ 64"
  shows "tokens_ok s' \<and> (strict \<longrightarrow> balanced s')"
  using assms
proof (induction evs arbitrary: s)
  case Nil
  then show ?case by simp
next
  case (Cons ev evs)
  from Cons.prems(1) obtain s1 where 1: "step strict s ev = Some s1"
    and 2: "run strict s1 evs = Some s'"
    by (auto split: option.splits)
  from run_windows [OF 2] Cons.prems(4) have "windows s1 < 2 ^ 64" by simp
  from step_ok [OF Cons.prems(2,3) 1 this] have "tokens_ok s1" "strict \<longrightarrow> balanced s1"
    by simp_all
  from Cons.IH [OF 2 this Cons.prems(4)] show ?case .
qed

lemma NewSystem_ok:
  "tokens_ok (NewSystem st now)" "balanced (NewSystem st now)"
  by (simp_all add: tokens_ok_def balanced_def NewSystem_def NewCircuitBreaker_def
      toNewGeneration_simps Counts_clear_eq zeroCounts_def)



lemma step_windows_le:
  assumes "step strict s ev = Some s'"
  shows "windows s' \<le> windows s + 2"
proof -
  have cs: "generation cb1 = generation cb \<or> generation cb1 = generation cb + 1"
    if "currentState cb now = (st, gen, cb1)" for cb now st gen and cb1 :: "'a CircuitBreaker"
    using that by (cases rule: currentState_cases [of cb now]) auto
  have d: "unat (g' - g) \<le> 2"
    if "g1 = g \<or> g1 = g + 1" "g' = g1 \<or> g' = g1 + 1" for g g1 g' :: uint64
    using that by auto
  show ?thesis
  proof (cases ev)
    case (Admit now)
    obtain st gen cb1 where c: "currentState (breaker s) now = (st, gen, cb1)"
      by (cases "currentState (breaker s) now")
    from cs [OF c] have "unat (generation cb1 - generation (breaker s)) \<le> 2"
      by (intro d [of "generation cb1"]) auto
    with assms show ?thesis
      by (auto simp: Admit step_def beforeRequest_def c moved_def split: if_splits)
  next
    case (Report g ok now)
    obtain st gen cb1 where c: "currentState (breaker s) now = (st, gen, cb1)"
      by (cases "currentState (breaker s) now")
    define r where "r = (if ok then onSuccess cb1 st now else onFailure cb1 st now)"
    from cs [OF c] have 1: "unat (generation cb1 - generation (breaker s)) \<le> 2"
      by (intro d [of "generation cb1"]) auto
    from cs [OF c] report_gen [OF r_def]
    have 2: "unat (generation r - generation (breaker s)) \<le> 2"
      by (rule d)
    from assms 1 2 show ?thesis
      by (auto simp: Report step_def afterRequest_def c moved_def r_def split: if_splits)
  next
    case (ReadState now)
    obtain st gen cb1 where c: "currentState (breaker s) now = (st, gen, cb1)"
      by (cases "currentState (breaker s) now")
    from cs [OF c] have "unat (generation cb1 - generation (breaker s)) \<le> 2"
      by (intro d [of "generation cb1"]) auto
    with assms show ?thesis
      by (auto simp: ReadState step_def CircuitBreaker_State_def c moved_def)
  qed
qed

lemma run_windows_le:
  "run strict s evs = Some s' \<Longrightarrow> windows s' \<le> windows s + 2 * length evs"
proof (induction evs arbitrary: s)
  case Nil
  then show ?case by simp
next
  case (Cons ev evs)
  from Cons.prems obtain s1 where 1: "step strict s ev = Some s1"
    and 2: "run strict s1 evs = Some s'"
    by (auto split: option.splits)
  from step_windows_le [OF 1] Cons.IH [OF 2] show ?case by simp
qed

lemma run_NewSystem_ok:
  assumes "run strict (NewSystem st t0) evs = Some s" and "length evs < 2 ^ 63"
  shows "windows s < 2 ^ 64" and "tokens_ok s" and "strict \<longrightarrow> balanced s"
proof -
  from run_windows_le [OF assms(1)] have "windows s \<le> 1 + 2 * length evs"
    by (simp add: NewSystem_def)
  with assms(2) show w: "windows s < 2 ^ 64" by simp
  from run_ok [OF assms(1) NewSystem_ok(1) _ w] NewSystem_ok(2)
  show "tokens_ok s" and "strict \<longrightarrow> balanced s" by blast+
qed

text \<open>
  C7. Take an execution from the constructor, of fewer than 2^63 steps (each a call of
  \<^verbatim>\<open>beforeRequest\<close>, \<^verbatim>\<open>afterRequest\<close> or \<^verbatim>\<open>State\<close>, in any interleaving and at any
  clock readings; reports may be repeated), and a generation \<open>g\<close> handed out in it by an
  admission. Whenever \<^verbatim>\<open>currentState\<close> returns \<open>g\<close>, at any time, the state it returns
  is not Open, and \<^verbatim>\<open>afterRequest\<close> with \<open>g\<close> is \<^verbatim>\<open>onSuccess\<close> or \<^verbatim>\<open>onFailure\<close> for
  that state, never for Open. The two reasons: \<^verbatim>\<open>setState\<close> to Open from another state
  moves to the next generation, and \<^verbatim>\<open>beforeRequest\<close> admits no request and leaves the
  breaker Open. The bound is on what a process can do: a step starts at most two
  generations, so in fewer than 2^63 steps the \<^verbatim>\<open>uint64\<close> generation takes every
  value at most once.
\<close>

theorem report_never_finds_Open:
  assumes "run strict (NewSystem st t0) evs = Some s" and "length evs < 2 ^ 63"
    and "g \<in> set (issued s)" and "currentState (breaker s) now = (stt, gen, cb')"
    and "gen = g"
  shows "stt \<noteq> StateOpen \<and>
         afterRequest (breaker s) g ok now =
           (if ok then onSuccess cb' stt now else onFailure cb' stt now) \<and>
         (state cb \<noteq> StateOpen \<longrightarrow>
            generation (setState cb StateOpen t) = generation cb + 1) \<and>
         (\<forall>gen' cb1. beforeRequest cb t = (gen', None, cb1) \<longrightarrow> state cb1 \<noteq> StateOpen)"
proof -
  from assms(1,2) have "tokens_ok s" by (rule run_NewSystem_ok)
  with assms(3) have *: "g = generation (breaker s) \<longrightarrow> state (breaker s) \<noteq> StateOpen"
    by (simp add: tokens_ok_def)
  have a: "stt \<noteq> StateOpen"
    using assms(4,5) * by (cases rule: currentState_cases [of "breaker s" now]) auto
  have b: "afterRequest (breaker s) g ok now =
           (if ok then onSuccess cb' stt now else onFailure cb' stt now)"
    using assms(4,5) by (simp add: afterRequest_def)
  have c: "state cb \<noteq> StateOpen \<longrightarrow>
            generation (setState cb StateOpen t) = generation cb + 1"
    by (simp add: setState_simps)
  have d: "\<forall>gen' cb1. beforeRequest cb t = (gen', None, cb1) \<longrightarrow> state cb1 \<noteq> StateOpen"
    by (cases rule: currentState_cases [of cb t])
      (auto simp: beforeRequest_def split: if_splits)
  from a b c d show ?thesis by blast
qed


lemma run_append:
  "run strict s (evs @ evs') =
     (case run strict s evs of None \<Rightarrow> None | Some s' \<Rightarrow> run strict s' evs')"
  by (induction evs arbitrary: s) (simp_all split: option.splits)

lemma tick_step:
  assumes "state (breaker s) = StateClosed" and "interval (breaker s) = 1"
    and "expiry (breaker s) \<noteq> 0" and "expiry (breaker s) < t"
  shows "step strict s (ReadState t) =
     Some (s\<lparr>breaker := (breaker s)\<lparr>generation := generation (breaker s) + 1,
                  counts := zeroCounts, expiry := t + 1\<rparr>,
             windows := Suc (windows s)\<rparr>)"
  using assms
  by (simp add: step_def CircuitBreaker_State_def currentState_Closed moved_def
      toNewGeneration_def Let_def Counts_clear_eq Add_def)

lemma run_ticks_Suc:
  assumes "state (breaker s) = StateClosed" and "interval (breaker s) = 1"
    and "expiry (breaker s) \<noteq> 0" and "expiry (breaker s) < t" and "0 \<le> t"
  shows "run strict s (ticks (Suc n) t) =
     Some (s\<lparr>breaker := (breaker s)\<lparr>generation := generation (breaker s) + of_nat (Suc n),
                  counts := zeroCounts, expiry := t + 2 * int n + 1\<rparr>,
             windows := windows s + Suc n\<rparr>)"
  using assms
proof (induction n arbitrary: s t)
  case 0
  then show ?case by (simp add: tick_step)
next
  case (Suc n)
  let ?s1 = "s\<lparr>breaker := (breaker s)\<lparr>generation := generation (breaker s) + 1,
                  counts := zeroCounts, expiry := t + 1\<rparr>,
             windows := Suc (windows s)\<rparr>"
  have 1: "step strict s (ReadState t) = Some ?s1"
    using Suc.prems by (simp add: tick_step)
  have "run strict ?s1 (ticks (Suc n) (t + 2)) =
     Some (?s1\<lparr>breaker := (breaker ?s1)\<lparr>generation := generation (breaker ?s1) + of_nat (Suc n),
                  counts := zeroCounts, expiry := (t + 2) + 2 * int n + 1\<rparr>,
             windows := windows ?s1 + Suc n\<rparr>)"
    using Suc.prems by (intro Suc.IH) simp_all
  then show ?case
    using 1 by (simp add: add.assoc)
qed

lemma run_ticks:
  assumes "state (breaker s) = StateClosed" and "interval (breaker s) = 1"
    and "expiry (breaker s) \<noteq> 0" and "expiry (breaker s) < t" and "0 \<le> t" and "0 < n"
  shows "run strict s (ticks n t) =
     Some (s\<lparr>breaker := (breaker s)\<lparr>generation := generation (breaker s) + of_nat n,
                  counts := zeroCounts, expiry := t + 2 * int n - 1\<rparr>,
             windows := windows s + n\<rparr>)"
proof -
  from assms(6) obtain m where n: "n = Suc m" by (cases n) auto
  show ?thesis
    unfolding n using run_ticks_Suc [OF assms(1-5), of strict m] by (simp add: algebra_simps)
qed

text \<open>
  Some bound on the length is needed. With an interval of 1 ns: a request is admitted
  in generation 1; 2^64 - 1 readings of the state, each past the window before, take
  the generation to 0; a request admitted there fails and trips the breaker, which is
  Open in generation 1. The generation of the first request, still unreported, is the
  one \<^verbatim>\<open>currentState\<close> returns now, with the state Open. The execution has 2^64 + 2
  steps, its clock readings span more than 2^65 ns.
\<close>

lemma generation_wraps_around:
  "run True (NewSystem wrapSettings 1) wrapOpenTrace = Some wrapOpenFinal \<and>
   1 \<in> set (issued wrapOpenFinal) \<and>
   currentState (breaker wrapOpenFinal) 36893488147419103231 =
     (StateOpen, 1, breaker wrapOpenFinal)"
proof -
  let ?cb0 = "NewCircuitBreaker wrapSettings 1"
  let ?s1 = "\<lparr>breaker = ?cb0\<lparr>counts := zeroCounts\<lparr>Requests := 1\<rparr>\<rparr>,
             issued = [1], pending = [1], windows = 1\<rparr>"
  have cb0: "state ?cb0 = StateClosed" "interval ?cb0 = 1" "expiry ?cb0 = 2"
    "generation ?cb0 = 1" "counts ?cb0 = zeroCounts"
    by (simp_all add: NewCircuitBreaker_def toNewGeneration_simps wrapSettings_def
        defaultSettings_def Counts_clear_eq)
  have 1: "step True (NewSystem wrapSettings 1) (Admit 1) = Some ?s1"
    by (simp add: step_def NewSystem_def beforeRequest_def currentState_Closed cb0 moved_def
        Counts_onRequest_def zeroCounts_def)
  let ?s2 = "?s1\<lparr>breaker := (breaker ?s1)\<lparr>generation := generation (breaker ?s1)
                   + of_nat 18446744073709551615,
                  counts := zeroCounts, expiry := 3 + 2 * int 18446744073709551615 - 1\<rparr>,
             windows := windows ?s1 + 18446744073709551615\<rparr>"
  have 2: "run True ?s1 (ticks 18446744073709551615 3) = Some ?s2"
    by (rule run_ticks) (simp_all add: cb0)
  have g: "(1::uint64) + 18446744073709551615 = 0"
    by simp
  have 3: "run True ?s2 [Admit 36893488147419103231, Report 0 False 36893488147419103231]
      = Some wrapOpenFinal"
    by (simp add: step_def beforeRequest_def afterRequest_def currentState_Closed cb0 g
        moved_def onFailure_def Let_def setState_simps setState_def toNewGeneration_def
        Counts_onRequest_def Counts_onFailure_def Counts_clear_eq zeroCounts_def wrapOpenFinal_def
        NewCircuitBreaker_def wrapSettings_def defaultSettings_def tripAlways_def
        defaultTimeout_def Second_def Add_def)
  have "run True (NewSystem wrapSettings 1) wrapOpenTrace =
      run True ?s1 (ticks 18446744073709551615 3 @
        [Admit 36893488147419103231, Report 0 False 36893488147419103231])"
    unfolding wrapOpenTrace_def by (simp only: run.simps 1 option.case)
  also have "\<dots> = run True ?s2
      [Admit 36893488147419103231, Report 0 False 36893488147419103231]"
    by (simp only: run_append 2 option.case)
  also note 3
  finally have "run True (NewSystem wrapSettings 1) wrapOpenTrace = Some wrapOpenFinal" .
  moreover have "currentState (breaker wrapOpenFinal) 36893488147419103231 =
     (StateOpen, 1, breaker wrapOpenFinal)"
    by (simp add: currentState_Open wrapOpenFinal_def)
  ultimately show ?thesis
    by (simp add: wrapOpenFinal_def)
qed

text \<open>
  Likewise for the counts: a request is admitted in generation 1; 2^64 readings of the
  state, each past the window before, take the generation to 1 again, with all counts
  zero; the report of the request, reported once, is counted there. No request is
  pending, one success is counted and no request. The execution has 2^64 + 2 steps.
\<close>

lemma stale_report_counted_after_wrap:
  "run True (NewSystem wrapSettings 1) wrapCountTrace = Some wrapCountFinal \<and>
   pending wrapCountFinal = [] \<and>
   TotalSuccesses (CircuitBreaker_Counts (breaker wrapCountFinal)) +
   TotalFailures (CircuitBreaker_Counts (breaker wrapCountFinal)) = 1 \<and>
   Requests (CircuitBreaker_Counts (breaker wrapCountFinal)) = 0"
proof -
  let ?cb0 = "NewCircuitBreaker wrapSettings 1"
  let ?s1 = "\<lparr>breaker = ?cb0\<lparr>counts := zeroCounts\<lparr>Requests := 1\<rparr>\<rparr>,
             issued = [1], pending = [1], windows = 1\<rparr>"
  have cb0: "state ?cb0 = StateClosed" "interval ?cb0 = 1" "expiry ?cb0 = 2"
    "generation ?cb0 = 1" "counts ?cb0 = zeroCounts"
    by (simp_all add: NewCircuitBreaker_def toNewGeneration_simps wrapSettings_def
        defaultSettings_def Counts_clear_eq)
  have 1: "step True (NewSystem wrapSettings 1) (Admit 1) = Some ?s1"
    by (simp add: step_def NewSystem_def beforeRequest_def currentState_Closed cb0 moved_def
        Counts_onRequest_def zeroCounts_def)
  let ?s2 = "?s1\<lparr>breaker := (breaker ?s1)\<lparr>generation := generation (breaker ?s1)
                   + of_nat 18446744073709551616,
                  counts := zeroCounts, expiry := 3 + 2 * int 18446744073709551616 - 1\<rparr>,
             windows := windows ?s1 + 18446744073709551616\<rparr>"
  have 2: "run True ?s1 (ticks 18446744073709551616 3) = Some ?s2"
    by (rule run_ticks) (simp_all add: cb0)
  have g: "(1::uint64) + 18446744073709551616 = 1"
    by simp
  have 3: "run True ?s2 [Report 1 True 36893488147419103233] = Some wrapCountFinal"
    by (simp add: step_def afterRequest_def currentState_Closed cb0 g
        moved_def onSuccess_def Let_def Counts_onSuccess_def zeroCounts_def wrapCountFinal_def
        NewCircuitBreaker_def wrapSettings_def defaultSettings_def toNewGeneration_def
        Counts_clear_eq defaultTimeout_def Second_def)
  have "run True (NewSystem wrapSettings 1) wrapCountTrace =
      run True ?s1 (ticks 18446744073709551616 3 @ [Report 1 True 36893488147419103233])"
    unfolding wrapCountTrace_def by (simp only: run.simps 1 option.case)
  also have "\<dots> = run True ?s2 [Report 1 True 36893488147419103233]"
    by (simp only: run_append 2 option.case)
  also note 3
  finally have "run True (NewSystem wrapSettings 1) wrapCountTrace = Some wrapCountFinal" .
  then show ?thesis
    by (simp add: wrapCountFinal_def CircuitBreaker_Counts_def)
qed

lemma run_admittedOnce:
  "run strict (NewSystem defaultSettings 0) [Admit 5] = Some admittedOnce"
  by (simp add: step_def NewSystem_def beforeRequest_def currentState_Closed closedBreaker_simps
      closedBreaker_def [symmetric] moved_def Counts_onRequest_def zeroCounts_def
      admittedOnce_def)


theorem report_never_finds_Open_witness:
  "run False (NewSystem defaultSettings 0) [Admit 5] = Some admittedOnce \<and>
   length [Admit 5] < 2 ^ 63 \<and> 1 \<in> set (issued admittedOnce) \<and>
   currentState (breaker admittedOnce) 6 = (StateClosed, 1, breaker admittedOnce) \<and>
   StateClosed \<noteq> StateOpen \<and>
   afterRequest (breaker admittedOnce) 1 False 6 =
     onFailure (breaker admittedOnce) StateClosed 6 \<and>
   state closedBreaker \<noteq> StateOpen \<and>
   generation (setState closedBreaker StateOpen 2000) = generation closedBreaker + 1 \<and>
   beforeRequest closedBreaker 2000 =
     (1, None, closedBreaker\<lparr>counts := zeroCounts\<lparr>Requests := 1\<rparr>\<rparr>) \<and>
   state (closedBreaker\<lparr>counts := zeroCounts\<lparr>Requests := 1\<rparr>\<rparr>) \<noteq> StateOpen"
proof -
  have w: "length [Admit 5] < 2 ^ 63" and i: "1 \<in> set (issued admittedOnce)"
    by (simp_all add: admittedOnce_def)
  have c: "currentState (breaker admittedOnce) 6 = (StateClosed, 1, breaker admittedOnce)"
    by (simp add: admittedOnce_def currentState_Closed closedBreaker_simps
        closedBreaker_def [symmetric])
  have n: "state closedBreaker \<noteq> StateOpen"
    by (simp add: closedBreaker_simps)
  have b: "beforeRequest closedBreaker 2000 =
     (1, None, closedBreaker\<lparr>counts := zeroCounts\<lparr>Requests := 1\<rparr>\<rparr>)"
    by (simp add: beforeRequest_def currentState_Closed closedBreaker_simps
        Counts_onRequest_def zeroCounts_def)
  from report_never_finds_Open [OF run_admittedOnce w i c refl, of False closedBreaker 2000]
    n b
  have "StateClosed \<noteq> StateOpen \<and>
    afterRequest (breaker admittedOnce) 1 False 6 =
      onFailure (breaker admittedOnce) StateClosed 6 \<and>
    generation (setState closedBreaker StateOpen 2000) = generation closedBreaker + 1 \<and>
    state (closedBreaker\<lparr>counts := zeroCounts\<lparr>Requests := 1\<rparr>\<rparr>) \<noteq> StateOpen"
    by simp
  with run_admittedOnce w i c n b show ?thesis by simp
qed


end
